theory Spec2Isabelle
  imports Main "HOL-Library.Word" "HOL-Library.Log_Nat"
begin

unbundle bit_operations_syntax

section \<open>Machine model\<close>

text \<open>
  The allocator of \<^verbatim>\<open>mm.c\<close> is modelled for a 64-bit target: \<^verbatim>\<open>size_t\<close>,
  \<^verbatim>\<open>uintptr_t\<close> and every pointer are \<open>64 word\<close>, so \<^verbatim>\<open>WSIZE\<close> is 8 and
  \<^verbatim>\<open>sizeof(Block)\<close> is 24. Memory is byte addressed and total (no access traps);
  a \<^verbatim>\<open>size_t\<close> access reads or writes eight bytes, least significant first.
  Diagnostic output to \<^verbatim>\<open>stderr\<close> is not part of the state.
\<close>

type_synonym addr = "64 word"
type_synonym memory = "addr \<Rightarrow> 8 word"

definition load64 :: "memory \<Rightarrow> addr \<Rightarrow> 64 word" where
  "load64 m a =
     ucast (m a) OR push_bit 8 (ucast (m (a + 1))) OR push_bit 16 (ucast (m (a + 2)))
     OR push_bit 24 (ucast (m (a + 3))) OR push_bit 32 (ucast (m (a + 4)))
     OR push_bit 40 (ucast (m (a + 5))) OR push_bit 48 (ucast (m (a + 6)))
     OR push_bit 56 (ucast (m (a + 7)))"

definition store64 :: "memory \<Rightarrow> addr \<Rightarrow> 64 word \<Rightarrow> memory" where
  "store64 m a v = (\<lambda>x. if x - a < 8 then ucast (drop_bit (8 * unat (x - a)) v) else m x)"

text \<open>\<^verbatim>\<open>memset\<close> and \<^verbatim>\<open>memmove\<close> of the C library, by their effect on the bytes.\<close>

definition memset :: "memory \<Rightarrow> addr \<Rightarrow> 8 word \<Rightarrow> 64 word \<Rightarrow> memory" where
  "memset m p c n = (\<lambda>x. if x - p < n then c else m x)"

definition memmove :: "memory \<Rightarrow> addr \<Rightarrow> addr \<Rightarrow> 64 word \<Rightarrow> memory" where
  "memmove m dst src n = (\<lambda>x. if x - dst < n then m (src + (x - dst)) else m x)"

text \<open>
  The process state: the memory, the program break with the limit up to which the
  operating system grants \<^verbatim>\<open>sbrk\<close>, \<^verbatim>\<open>errno\<close>, and the allocator's globals
  (\<^verbatim>\<open>init\<close> is the static flag of \<^verbatim>\<open>malloc_init\<close>).
\<close>

record state =
  mem :: memory
  brk :: addr
  brk_limit :: addr
  errno :: int
  init :: int
  free_lists :: addr
  prologue :: addr
  epilogue :: addr

definition ENOMEM :: int where "ENOMEM = 12"
definition SIZE_MAX :: "64 word" where "SIZE_MAX = - 1"

text \<open>
  \<^verbatim>\<open>sbrk\<close> takes an \<^verbatim>\<open>intptr_t\<close>: the \<^verbatim>\<open>size_t\<close> the allocator passes is read
  as a signed increment, so a value from \<open>2^63\<close> on lowers the break. The call moves
  the break and returns the previous one when the new break lies between 0 and the
  limit, and refuses with \<open>(void *) -1\<close> and \<^verbatim>\<open>ENOMEM\<close> otherwise. An increment
  of 0 always succeeds.
\<close>

definition sbrk :: "state \<Rightarrow> 64 word \<Rightarrow> state \<times> addr" where
  "sbrk st n =
     (if n = 0 \<or> (0 \<le> uint (brk st) + sint n \<and> uint (brk st) + sint n \<le> uint (brk_limit st))
      then (st\<lparr>brk := brk st + n\<rparr>, brk st)
      else (st\<lparr>errno := ENOMEM\<rparr>, - 1))"

section \<open>Constants and macros\<close>

definition WSIZE :: "64 word" where "WSIZE = 8"
definition DSIZE :: "64 word" where "DSIZE = 2 * WSIZE"
definition ALIGNMENT :: "64 word" where "ALIGNMENT = DSIZE"
definition MINBLOCK :: "64 word" where "MINBLOCK = 24 + WSIZE"
definition MAXSMALL :: "64 word" where "MAXSMALL = 504"
definition LISTCOUNT :: int where "LISTCOUNT = 75"

definition ALIGN :: "64 word \<Rightarrow> 64 word" where
  "ALIGN sz = (sz + (ALIGNMENT - 1)) AND NOT 7"

definition USERTOBLOCK :: "addr \<Rightarrow> addr" where "USERTOBLOCK u = u - WSIZE"
definition BLOCKTOUSER :: "addr \<Rightarrow> addr" where "BLOCKTOUSER b = b + WSIZE"

text \<open>The fields of \<^verbatim>\<open>struct block\<close>: \<^verbatim>\<open>size\<close> at offset 0, \<^verbatim>\<open>next\<close> at 8, \<^verbatim>\<open>prev\<close> at 16.\<close>

definition get_next :: "memory \<Rightarrow> addr \<Rightarrow> addr" where "get_next m b = load64 m (b + 8)"
definition get_prev :: "memory \<Rightarrow> addr \<Rightarrow> addr" where "get_prev m b = load64 m (b + 16)"
definition set_next :: "memory \<Rightarrow> addr \<Rightarrow> addr \<Rightarrow> memory" where "set_next m b v = store64 m (b + 8) v"
definition set_prev :: "memory \<Rightarrow> addr \<Rightarrow> addr \<Rightarrow> memory" where "set_prev m b v = store64 m (b + 16) v"

definition SIZE :: "memory \<Rightarrow> addr \<Rightarrow> 64 word" where "SIZE m b = load64 m b AND NOT 7"
definition USERSIZE :: "memory \<Rightarrow> addr \<Rightarrow> 64 word" where "USERSIZE m b = SIZE m b - DSIZE"
definition BLOCKSIZE :: "64 word \<Rightarrow> 64 word" where "BLOCKSIZE u = u + DSIZE"
definition ISALLOC :: "memory \<Rightarrow> addr \<Rightarrow> 64 word" where "ISALLOC m b = load64 m b AND 1"
definition ISQUICK :: "memory \<Rightarrow> addr \<Rightarrow> 64 word" where "ISQUICK m b = load64 m b AND 2"

definition MARKUNQUICK :: "memory \<Rightarrow> addr \<Rightarrow> memory" where
  "MARKUNQUICK m b = store64 m b (load64 m b AND NOT 2)"
definition MARKALLOC :: "memory \<Rightarrow> addr \<Rightarrow> memory" where
  "MARKALLOC m b = store64 m b ((load64 m b AND NOT 2) OR 1)"
definition MARKFREE :: "memory \<Rightarrow> addr \<Rightarrow> memory" where
  "MARKFREE m b = store64 m b (load64 m b AND NOT 1)"
definition SETSIZEHDR :: "memory \<Rightarrow> addr \<Rightarrow> 64 word \<Rightarrow> memory" where
  "SETSIZEHDR m b s = store64 m b ((load64 m b AND 7) OR s)"
definition BOUNDINIT :: "memory \<Rightarrow> addr \<Rightarrow> memory" where
  "BOUNDINIT m b = SETSIZEHDR (MARKALLOC m b) b 0"
definition GETFTR :: "memory \<Rightarrow> addr \<Rightarrow> addr" where
  "GETFTR m b = b + SIZE m b - WSIZE"
definition HDRTOFTR :: "memory \<Rightarrow> addr \<Rightarrow> memory" where
  "HDRTOFTR m b = store64 m (GETFTR m b) (load64 m b)"
definition SETSIZE :: "memory \<Rightarrow> addr \<Rightarrow> 64 word \<Rightarrow> memory" where
  "SETSIZE m b s = HDRTOFTR (SETSIZEHDR m b s) b"

definition PREVFTR :: "addr \<Rightarrow> addr" where "PREVFTR b = b - WSIZE"
definition PREVRAW :: "memory \<Rightarrow> addr \<Rightarrow> addr" where
  "PREVRAW m b = b - SIZE m (PREVFTR b)"
definition PREVUNCOAL :: "memory \<Rightarrow> addr \<Rightarrow> 64 word" where
  "PREVUNCOAL m b = load64 m (PREVFTR b) AND 3"
definition NEXTRAW :: "memory \<Rightarrow> addr \<Rightarrow> addr" where
  "NEXTRAW m b = b + SIZE m b"
definition NEXTUNCOAL :: "memory \<Rightarrow> addr \<Rightarrow> 64 word" where
  "NEXTUNCOAL m b = load64 m (NEXTRAW m b) AND 3"

section \<open>Free lists\<close>

text \<open>
  \<^verbatim>\<open>find_list_index\<close>: the \<^verbatim>\<open>while (s) { l++; s >>= 1; }\<close> loop counts the bits of
  \<open>s\<close>; the result is converted from \<^verbatim>\<open>size_t\<close> to \<^verbatim>\<open>int\<close> in the small case.
\<close>

function count_bits :: "64 word \<Rightarrow> int \<Rightarrow> int" where
  "count_bits s l = (if s \<noteq> 0 then count_bits (drop_bit 1 s) (l + 1) else l)"
  by pat_completeness auto
termination
proof (relation "measure (\<lambda>(s, l). unat s)")
  show "wf (measure (\<lambda>(s :: 64 word, l :: int). unat s))" by simp
next
  fix s :: "64 word" and l :: int
  assume "s \<noteq> 0"
  then have "0 < unat s" by (simp add: unat_gt_0)
  then have "unat s div 2 < unat s" by simp
  then show "((drop_bit 1 s, l + 1), (s, l)) \<in> measure (\<lambda>(s, l). unat s)"
    by (simp add: drop_bit_eq_div unat_div)
qed

declare count_bits.simps [simp del]

definition find_list_index :: "64 word \<Rightarrow> int" where
  "find_list_index s =
     (if s < 512 then sint (ucast (drop_bit 3 s - 1) :: 32 word)
      else let l = count_bits (drop_bit 10 s) 0
           in if l < 12 then 63 + l else LISTCOUNT - 1)"

text \<open>The address of \<^verbatim>\<open>free_lists[i]\<close> for an \<^verbatim>\<open>int\<close> index.\<close>

definition list_slot :: "state \<Rightarrow> int \<Rightarrow> addr" where
  "list_slot st i = free_lists st + 8 * word_of_int i"

partial_function (option) find_in_list_loop :: "memory \<Rightarrow> addr \<Rightarrow> 64 word \<Rightarrow> addr option" where
  "find_in_list_loop m cur sz =
     (if cur \<noteq> 0 then
        if SIZE m cur \<ge> sz then Some cur
        else find_in_list_loop m (get_next m cur) sz
      else Some 0)"

declare find_in_list_loop.simps [code]

definition find_in_list :: "memory \<Rightarrow> addr \<Rightarrow> 64 word \<Rightarrow> addr option" where
  "find_in_list m list sz =
     (if sz \<le> MAXSMALL then Some list else find_in_list_loop m list sz)"

definition free_list_insert :: "state \<Rightarrow> addr \<Rightarrow> bool \<Rightarrow> state" where
  "free_list_insert st new_block unsorted =
     (let head = (if unsorted then list_slot st 0
                  else list_slot st (find_list_index (SIZE (mem st) new_block)));
          m1 = MARKFREE (mem st) new_block;
          m2 = MARKUNQUICK m1 new_block;
          m3 = HDRTOFTR m2 new_block
      in if load64 m3 head = 0 then
           let m4 = store64 m3 head new_block;
               m5 = set_next m4 new_block 0;
               m6 = set_prev m5 new_block 0
           in st\<lparr>mem := m6\<rparr>
         else
           let m4 = set_next m3 new_block (load64 m3 head);
               m5 = set_prev m4 (load64 m4 head) new_block;
               m6 = store64 m5 head new_block;
               m7 = set_prev m6 new_block 0
           in st\<lparr>mem := m7\<rparr>)"

definition free_list_remove :: "state \<Rightarrow> addr \<Rightarrow> state" where
  "free_list_remove st b =
     (let m = mem st;
          size_head = list_slot st (find_list_index (SIZE m b));
          unsorted_head = list_slot st 0;
          m1 = (if b = load64 m size_head \<or> b = load64 m unsorted_head then
                  let head = (if b = load64 m size_head then size_head else unsorted_head);
                      ma = store64 m head (get_next m b)
                  in if load64 ma head \<noteq> 0 then set_prev ma (load64 ma head) 0 else ma
                else set_next m (get_prev m b) (get_next m b));
          m2 = (if get_next m1 b \<noteq> 0 then set_prev m1 (get_next m1 b) (get_prev m1 b) else m1);
          m3 = MARKALLOC m2 b;
          m4 = HDRTOFTR m3 b
      in st\<lparr>mem := m4\<rparr>)"

section \<open>Coalescing, splitting, extending\<close>

definition coalesce :: "state \<Rightarrow> addr \<Rightarrow> state \<times> addr" where
  "coalesce st b =
     (let new_size = SIZE (mem st) b;
          (st1, new_size1, local_block) =
            (if PREVUNCOAL (mem st) b = 0 then
               let prev = PREVRAW (mem st) b;
                   sta = free_list_remove st prev
               in (sta, new_size + SIZE (mem sta) prev, prev)
             else (st, new_size, b));
          (st2, new_size2) =
            (if NEXTUNCOAL (mem st1) b = 0 then
               let next = NEXTRAW (mem st1) b;
                   sta = free_list_remove st1 next
               in (sta, new_size1 + SIZE (mem sta) next)
             else (st1, new_size1));
          st3 =
            (if new_size2 \<noteq> SIZE (mem st2) b then
               let sta = (if ISALLOC (mem st2) b = 0 then free_list_remove st2 b else st2)
               in sta\<lparr>mem := SETSIZE (mem sta) local_block new_size2\<rparr>
             else st2)
      in (st3, local_block))"

definition extend_heap :: "state \<Rightarrow> 64 word \<Rightarrow> state \<times> addr" where
  "extend_heap st sz =
     (let (st1, r) = sbrk st sz
      in if r = - 1 then (st1\<lparr>errno := ENOMEM\<rparr>, 0)
         else
           let new_block = epilogue st1;
               m1 = MARKALLOC (mem st1) new_block;
               m2 = SETSIZE m1 new_block sz;
               ep = epilogue st1 + sz;
               m3 = BOUNDINIT m2 ep
           in (st1\<lparr>mem := m3, epilogue := ep\<rparr>, new_block))"

definition split_block :: "state \<Rightarrow> addr \<Rightarrow> 64 word \<Rightarrow> state" where
  "split_block st b sz =
     (let new_size = SIZE (mem st) b - sz
      in if new_size \<ge> MINBLOCK then
           let m1 = SETSIZE (mem st) b sz;
               new_block = NEXTRAW m1 b;
               m2 = SETSIZE m1 new_block new_size
           in free_list_insert (st\<lparr>mem := m2\<rparr>) new_block True
         else st)"

section \<open>Search\<close>

text \<open>
  The \<^verbatim>\<open>while\<close> loop of \<^verbatim>\<open>find_block\<close> over the unsorted list: \<open>Some b\<close> in the
  result is the block the function returns from inside the loop, \<open>None\<close> means the
  loop ended with the list empty.
\<close>

partial_function (option) unsorted_sweep :: "state \<Rightarrow> addr \<Rightarrow> 64 word \<Rightarrow> (state \<times> addr option) option" where
  "unsorted_sweep st found_block sz =
     (if found_block \<noteq> 0 then
        let (st1, fb) = coalesce st found_block;
            st2 = (if ISALLOC (mem st1) fb = 0 then free_list_remove st1 fb else st1)
        in if SIZE (mem st2) fb \<ge> sz then Some (st2, Some fb)
           else let st3 = free_list_insert st2 fb False
                in unsorted_sweep st3 (load64 (mem st3) (list_slot st3 0)) sz
      else Some (st, None))"

declare unsorted_sweep.simps [code]

text \<open>The \<^verbatim>\<open>for\<close> loop of \<^verbatim>\<open>find_block\<close> over the segregated lists.\<close>

function segregated_scan :: "state \<Rightarrow> int \<Rightarrow> 64 word \<Rightarrow> addr option" where
  "segregated_scan st list_index sz =
     (if list_index < LISTCOUNT then
        case find_in_list (mem st) (load64 (mem st) (list_slot st list_index)) sz of
          None \<Rightarrow> None
        | Some found_block \<Rightarrow>
            if found_block \<noteq> 0 then Some found_block
            else segregated_scan st (list_index + 1) sz
      else Some 0)"
  by pat_completeness auto
termination
  by (relation "measure (\<lambda>(st, i, sz). nat (LISTCOUNT - i))") auto

declare segregated_scan.simps [simp del]

definition find_block :: "state \<Rightarrow> 64 word \<Rightarrow> (state \<times> addr) option" where
  "find_block st sz =
     (case unsorted_sweep st (load64 (mem st) (list_slot st 0)) sz of
        None \<Rightarrow> None
      | Some (st1, Some found_block) \<Rightarrow> Some (st1, found_block)
      | Some (st1, None) \<Rightarrow>
          (case segregated_scan st1 (find_list_index sz) sz of
             None \<Rightarrow> None
           | Some found_block \<Rightarrow> Some (st1, found_block)))"

section \<open>Public operations\<close>

definition malloc_init :: "state \<Rightarrow> state \<times> int" where
  "malloc_init st =
     (if init st > 0 then (st, 0)
      else
        let (sta, fl) = sbrk st (8 * 75);
            st1 = sta\<lparr>free_lists := fl\<rparr>
        in if fl = - 1 then (st1\<lparr>errno := ENOMEM\<rparr>, - 1)
           else
             let st2 = st1\<lparr>mem := memset (mem st1) (free_lists st1) 0 (8 * 75)\<rparr>;
                 (st3, old_brk) = sbrk st2 0
             in if old_brk = - 1 then (st3\<lparr>errno := ENOMEM\<rparr>, - 1)
                else
                  let pad_bytes = ALIGN old_brk - old_brk;
                      req_bytes = ALIGN (pad_bytes + WSIZE + 24);
                      (st4, r) = sbrk st3 req_bytes
                  in if r = - 1 then (st4\<lparr>errno := ENOMEM\<rparr>, - 1)
                     else
                       let st5 = st4\<lparr>prologue := old_brk + pad_bytes\<rparr>;
                           st6 = st5\<lparr>epilogue := prologue st5 + WSIZE\<rparr>;
                           st7 = st6\<lparr>mem := BOUNDINIT (mem st6) (prologue st6)\<rparr>;
                           st8 = st7\<lparr>mem := BOUNDINIT (mem st7) (epilogue st7)\<rparr>
                       in (st8\<lparr>init := 1\<rparr>, 0))"

text \<open>
  \<^verbatim>\<open>malloc\<close> from the search on (lines 210 to 243), for the block size \<open>sz\<close>
  already computed; \<open>malloc_take\<close> is its common tail (lines 234 to 243).
\<close>

definition malloc_take :: "state \<Rightarrow> addr \<Rightarrow> 64 word \<Rightarrow> state \<times> addr" where
  "malloc_take st found_block sz =
     (let st1 = (if ISALLOC (mem st) found_block = 0 then free_list_remove st found_block else st);
          st2 = split_block st1 found_block sz
      in (st2, BLOCKTOUSER found_block))"

definition malloc_place :: "state \<Rightarrow> 64 word \<Rightarrow> (state \<times> addr) option" where
  "malloc_place st sz =
     (case find_block st sz of
        None \<Rightarrow> None
      | Some (st1, found_block) \<Rightarrow>
          if found_block = 0 then
            let last_in_heap = PREVRAW (mem st1) (epilogue st1)
            in if ISALLOC (mem st1) last_in_heap = 0 then
                 let (st2, r) = extend_heap st1 (sz - SIZE (mem st1) last_in_heap)
                 in if r = 0 then Some (st2, 0)
                    else
                      let st3 = free_list_remove st2 last_in_heap;
                          st4 = st3\<lparr>mem := SETSIZE (mem st3) last_in_heap sz\<rparr>
                      in Some (malloc_take st4 last_in_heap sz)
               else
                 let (st2, fb) = extend_heap st1 sz
                 in if fb = 0 then Some (st2, 0)
                    else Some (malloc_take st2 fb sz)
          else Some (malloc_take st1 found_block sz))"

definition malloc :: "state \<Rightarrow> 64 word \<Rightarrow> (state \<times> addr) option" where
  "malloc st sz =
     (let (st0, rc) = malloc_init st
      in if rc < 0 then Some (st0, 0)
         else if sz = 0 then Some (st0, 0)
         else if sz > ALIGN (BLOCKSIZE sz) then Some (st0\<lparr>errno := ENOMEM\<rparr>, 0)
         else malloc_place st0 (ALIGN (BLOCKSIZE sz)))"

definition free :: "state \<Rightarrow> addr \<Rightarrow> state" where
  "free st ptr =
     (if ptr = 0 then st
      else let (st1, b) = coalesce st (USERTOBLOCK ptr)
           in free_list_insert st1 b True)"

definition calloc :: "state \<Rightarrow> 64 word \<Rightarrow> 64 word \<Rightarrow> (state \<times> addr) option" where
  "calloc st nmemb sz =
     (let total_size = nmemb * sz
      in if sz \<noteq> 0 \<and> nmemb > SIZE_MAX div sz then Some (st\<lparr>errno := ENOMEM\<rparr>, 0)
         else
           case malloc st total_size of
             None \<Rightarrow> None
           | Some (st1, userptr) \<Rightarrow>
               if userptr = 0 then Some (st1, 0)
               else Some (st1\<lparr>mem := memset (mem st1) userptr 0 total_size\<rparr>, userptr))"

text \<open>The \<^verbatim>\<open>do ... while (SIZE(b) > old_size)\<close> loop of \<^verbatim>\<open>realloc\<close>.\<close>

function coalesce_loop :: "state \<Rightarrow> addr \<Rightarrow> state \<times> addr" where
  "coalesce_loop st b =
     (let old_size = SIZE (mem st) b;
          (st1, b1) = coalesce st b
      in if SIZE (mem st1) b1 > old_size then coalesce_loop st1 b1 else (st1, b1))"
  by pat_completeness auto
termination
proof (relation "measure (\<lambda>(st, b). 2 ^ 64 - unat (SIZE (mem st) b))")
  show "wf (measure (\<lambda>(st, b). 2 ^ 64 - unat (SIZE (mem st) b)))" by simp
next
  fix st :: state and b :: addr and old_size x st1 b1
  assume "old_size = SIZE (mem st) b" "x = coalesce st b" "(st1, b1) = x"
    "old_size < SIZE (mem st1) b1"
  then have "unat (SIZE (mem st) b) < unat (SIZE (mem st1) b1)"
    by (simp add: word_less_nat_alt)
  moreover have "unat (SIZE (mem st1) b1) < 2 ^ 64"
    using unsigned_less[of "SIZE (mem st1) b1"] by simp
  ultimately show "((st1, b1), (st, b)) \<in> measure (\<lambda>(st, b). 2 ^ 64 - unat (SIZE (mem st) b))"
    by simp
qed

declare coalesce_loop.simps [simp del]

text \<open>
  The tail of the grow path of \<^verbatim>\<open>realloc\<close> (lines 341 to 349 and the final
  \<^verbatim>\<open>return new\<close>): move the payload and free the old block when it lies below.
\<close>

definition realloc_move :: "state \<Rightarrow> addr \<Rightarrow> addr \<Rightarrow> 64 word \<Rightarrow> state \<times> addr" where
  "realloc_move st ptr new original_size =
     (let st1 = (if new \<noteq> ptr then st\<lparr>mem := memmove (mem st) new ptr original_size\<rparr> else st);
          st2 = (if ptr < new then free st1 ptr else st1)
      in (st2, new))"

text \<open>
  Lines 307 to 315 of \<^verbatim>\<open>realloc\<close>: when the block is too small it is coalesced
  until its size stops growing.
\<close>

definition realloc_coalesce :: "state \<Rightarrow> addr \<Rightarrow> 64 word \<Rightarrow> state \<times> addr" where
  "realloc_coalesce st b sz = (if sz > SIZE (mem st) b then coalesce_loop st b else (st, b))"

text \<open>
  \<^verbatim>\<open>realloc\<close>. There is no \<^verbatim>\<open>return\<close> after \<^verbatim>\<open>free(ptr)\<close> in the
  \<^verbatim>\<open>size == 0\<close> case (lines 298 and 299), so execution continues with the freed block.
\<close>

definition realloc :: "state \<Rightarrow> addr \<Rightarrow> 64 word \<Rightarrow> (state \<times> addr) option" where
  "realloc st ptr usize =
     (if ptr = 0 then malloc st usize
      else
        let st0 = (if usize = 0 then free st ptr else st);
            sz = ALIGN (BLOCKSIZE usize);
            b0 = USERTOBLOCK ptr;
            original_size = USERSIZE (mem st0) b0;
            (st1, b) = realloc_coalesce st0 b0 sz
        in if SIZE (mem st1) b < sz then
             if NEXTRAW (mem st1) b = epilogue st1 then
               let (st2, r) = extend_heap st1 (sz - SIZE (mem st1) b)
               in if r = 0 then Some (st2, 0)
                  else
                    let st3 = st2\<lparr>mem := SETSIZE (mem st2) b sz\<rparr>;
                        new = BLOCKTOUSER b;
                        st4 = (if ISALLOC (mem st3) b = 0
                               then st3\<lparr>mem := HDRTOFTR (MARKALLOC (mem st3) b) b\<rparr> else st3)
                    in Some (realloc_move st4 ptr new original_size)
             else
               case malloc st1 sz of
                 None \<Rightarrow> None
               | Some (st2, new) \<Rightarrow>
                   if new = 0 then Some (st2\<lparr>errno := ENOMEM\<rparr>, 0)
                   else Some (realloc_move st2 ptr new original_size)
           else
             let new = BLOCKTOUSER b;
                 new_size = (if original_size < sz then original_size else sz);
                 st2 = (if ISALLOC (mem st1) b = 0 then free_list_remove st1 b else st1);
                 st3 = (if new \<noteq> ptr then st2\<lparr>mem := memmove (mem st2) new ptr new_size\<rparr> else st2);
                 st4 = split_block st3 b sz
             in Some (st4, new))"

section \<open>Concrete heaps\<close>

text \<open>
  Memories given word by word: \<open>wmem al\<close> holds at each 8-aligned address \<open>a\<close> the
  word that the list \<open>al\<close> gives for \<open>a\<close> (the first entry counts) and 0 elsewhere.
\<close>

definition wlookup :: "(addr \<times> 64 word) list \<Rightarrow> addr \<Rightarrow> 64 word" where
  "wlookup al a = (case map_of al a of Some v \<Rightarrow> v | None \<Rightarrow> 0)"

definition wupd :: "addr \<Rightarrow> 64 word \<Rightarrow> (addr \<times> 64 word) list \<Rightarrow> (addr \<times> 64 word) list" where
  "wupd a v al = (a, v) # filter (\<lambda>p. fst p \<noteq> a) al"

definition wmem :: "(addr \<times> 64 word) list \<Rightarrow> memory" where
  "wmem al = (\<lambda>x. ucast (drop_bit (8 * unat (x AND 7)) (wlookup al (x AND NOT 7))))"

text \<open>
  A process before the first call: zeroed memory, the break at \<open>b\<close>, the limit of
  \<^verbatim>\<open>sbrk\<close> at \<open>lm\<close>, all globals zero.
\<close>

definition fresh :: "addr \<Rightarrow> addr \<Rightarrow> state" where
  "fresh b lm = \<lparr>mem = (\<lambda>_. 0), brk = b, brk_limit = lm, errno = 0, init = 0,
     free_lists = 0, prologue = 0, epilogue = 0\<rparr>"

text \<open>The states of the runs used below; the list table is at 4096, the prologue at 4704.\<close>

definition heap0 :: state where
  "heap0 = \<lparr>mem = wmem [(4712, 1), (4704, 1)], brk = 4744, brk_limit = 65536,
     errno = 0, init = 1, free_lists = 4096, prologue = 4704, epilogue = 4712\<rparr>"

definition heap1 :: state where
  "heap1 = \<lparr>mem = wmem [(4752, 1), (4744, 41), (4712, 41), (4704, 1)],
     brk = 4784, brk_limit = 65536, errno = 0, init = 1,
     free_lists = 4096, prologue = 4704, epilogue = 4752\<rparr>"

definition heap2 :: state where
  "heap2 = \<lparr>mem = wmem [(4792, 1), (4784, 41), (4752, 41), (4744, 41), (4712, 41), (4704, 1)],
     brk = 4824, brk_limit = 65536, errno = 0, init = 1,
     free_lists = 4096, prologue = 4704, epilogue = 4792\<rparr>"

definition heap3 :: state where
  "heap3 = \<lparr>mem = wmem [(4744, 41), (4712, 41), (4096, 0), (4728, 0), (4720, 0),
       (4752, 1), (4704, 1)],
     brk = 4784, brk_limit = 65536, errno = 0, init = 1,
     free_lists = 4096, prologue = 4704, epilogue = 4752\<rparr>"

definition tight1 :: state where
  "tight1 = \<lparr>mem = wmem [(4752, 1), (4744, 41), (4712, 41), (4704, 1)],
     brk = 4784, brk_limit = 5000, errno = 0, init = 1,
     free_lists = 4096, prologue = 4704, epilogue = 4752\<rparr>"

definition tight2 :: state where
  "tight2 = \<lparr>mem = wmem [(4792, 1), (4784, 41), (4752, 41), (4744, 41), (4712, 41), (4704, 1)],
     brk = 4824, brk_limit = 5000, errno = 0, init = 1,
     free_lists = 4096, prologue = 4704, epilogue = 4792\<rparr>"

definition tight3 :: state where
  "tight3 = \<lparr>mem = wmem [(4768, 0), (4760, 0), (4096, 4752), (4784, 40), (4752, 40),
       (4792, 1), (4744, 41), (4712, 41), (4704, 1)],
     brk = 4824, brk_limit = 5000, errno = 0, init = 1,
     free_lists = 4096, prologue = 4704, epilogue = 4792\<rparr>"

definition tight4 :: state where
  "tight4 = \<lparr>mem = wmem [(4784, 81), (4712, 81), (4752, 41), (4096, 0), (4768, 0),
       (4760, 0), (4792, 1), (4744, 41), (4704, 1)],
     brk = 4824, brk_limit = 5000, errno = 12, init = 1,
     free_lists = 4096, prologue = 4704, epilogue = 4792\<rparr>"

definition big1 :: state where
  "big1 = \<lparr>mem = wmem [(4936, 1), (4928, 225), (4712, 225), (4704, 1)],
     brk = 4968, brk_limit = 65536, errno = 0, init = 1,
     free_lists = 4096, prologue = 4704, epilogue = 4936\<rparr>"

definition big2 :: state where
  "big2 = \<lparr>mem = wmem [(4976, 1), (4968, 41), (4936, 41), (4928, 225), (4712, 225), (4704, 1)],
     brk = 5008, brk_limit = 65536, errno = 0, init = 1,
     free_lists = 4096, prologue = 4704, epilogue = 4976\<rparr>"

definition big3 :: state where
  "big3 = \<lparr>mem = wmem [(4952, 0), (4944, 0), (4096, 4936), (4968, 40), (4936, 40),
       (4976, 1), (4928, 225), (4712, 225), (4704, 1)],
     brk = 5008, brk_limit = 65536, errno = 0, init = 1,
     free_lists = 4096, prologue = 4704, epilogue = 4976\<rparr>"

definition big4 :: state where
  "big4 = \<lparr>mem = wmem [(4768, 0), (4096, 4752), (4952, 4752), (4760, 4936), (4928, 184),
       (4752, 184), (4744, 41), (4712, 41), (4944, 0), (4968, 40),
       (4936, 40), (4976, 1), (4704, 1)],
     brk = 5008, brk_limit = 65536, errno = 0, init = 1,
     free_lists = 4096, prologue = 4704, epilogue = 4976\<rparr>"

definition reuse1 :: state where
  "reuse1 = \<lparr>mem = wmem [(4728, 0), (4720, 0), (4096, 4712), (4744, 40), (4712, 40),
       (4792, 1), (4784, 41), (4752, 41), (4704, 1)],
     brk = 4824, brk_limit = 65536, errno = 0, init = 1,
     free_lists = 4096, prologue = 4704, epilogue = 4792\<rparr>"

definition reuse2 :: state where
  "reuse2 = \<lparr>mem = wmem [(4920, 1), (4912, 129), (4792, 129), (4728, 0), (4720, 0),
       (4128, 4712), (4744, 40), (4712, 40), (4096, 0), (4784, 41),
       (4752, 41), (4704, 1)],
     brk = 4952, brk_limit = 65536, errno = 0, init = 1,
     free_lists = 4096, prologue = 4704, epilogue = 4920\<rparr>"

definition zeroed1 :: state where
  "zeroed1 = \<lparr>mem = memset (wmem [(4752, 1), (4744, 41), (4712, 41), (4704, 1)]) 4720 0 16,
     brk = 4784, brk_limit = 65536, errno = 0, init = 1,
     free_lists = 4096, prologue = 4704, epilogue = 4752\<rparr>"

text \<open>
  Three blocks of 40 bytes at 4712, 4752 and 4792: all allocated (\<open>trio1\<close>), then the
  first and the third freed (\<open>trio2\<close>).
\<close>

definition trio1 :: state where
  "trio1 = \<lparr>mem = wmem [(4832, 1), (4824, 41), (4792, 41), (4784, 41), (4752, 41),
       (4744, 41), (4712, 41), (4704, 1)],
     brk = 4864, brk_limit = 65536, errno = 0, init = 1,
     free_lists = 4096, prologue = 4704, epilogue = 4832\<rparr>"

definition trio2 :: state where
  "trio2 = \<lparr>mem = wmem [(4808, 0), (4096, 4792), (4728, 4792), (4800, 4712), (4824, 40),
       (4792, 40), (4720, 0), (4744, 40), (4712, 40), (4832, 1), (4784, 41), (4752, 41),
       (4704, 1)],
     brk = 4864, brk_limit = 65536, errno = 0, init = 1,
     free_lists = 4096, prologue = 4704, epilogue = 4832\<rparr>"

section \<open>Properties named by the specification\<close>

text \<open>
  The specification's reading of the large buckets: index \<open>63 + k\<close> holds the sizes in
  \<open>[2^(k+10), 2^(k+11))\<close>.
\<close>

definition spec_bucket :: "nat \<Rightarrow> nat \<Rightarrow> bool" where
  "spec_bucket k s = (2 ^ (k + 10) \<le> s \<and> s < 2 ^ (k + 11))"

text \<open>
  The specification's \<open>align\<close>: the least multiple of the alignment quantum \<open>a\<close> that is
  not below \<open>n\<close>.
\<close>

definition spec_align :: "nat \<Rightarrow> nat \<Rightarrow> nat" where
  "spec_align a n = ((n + a - 1) div a) * a"

text \<open>
  A header or footer word is coalescable when neither the allocated nor the quick bit
  is set, the test of \<^verbatim>\<open>PREVUNCOAL\<close> and \<^verbatim>\<open>NEXTUNCOAL\<close>. A block and its
  successor in the address space form an adjacent free pair when both headers are
  coalescable.
\<close>

definition coalescable :: "memory \<Rightarrow> addr \<Rightarrow> bool" where
  "coalescable m b = (load64 m b AND 3 = 0)"

definition adjacent_free_pair :: "memory \<Rightarrow> addr \<Rightarrow> bool" where
  "adjacent_free_pair m b = (coalescable m b \<and> coalescable m (NEXTRAW m b))"

text \<open>
  The well-formedness that \<^verbatim>\<open>free\<close> relies on around the block it releases, for a
  list \<open>F\<close> of the blocks that are on the free lists. The list functions write through
  list pointers only into the slots of the table and into the \<^verbatim>\<open>next\<close> and \<^verbatim>\<open>prev\<close>
  words of list nodes (\<open>node_cells\<close>), or into address 8, the \<^verbatim>\<open>next\<close> word of a null
  \<^verbatim>\<open>prev\<close> pointer; every such word holds null or a node (\<open>links_closed\<close>).
\<close>

definition aligned8 :: "addr \<Rightarrow> bool" where
  "aligned8 a = (a AND 7 = 0)"

definition node_cells :: "state \<Rightarrow> addr list \<Rightarrow> addr list" where
  "node_cells st F =
     map (list_slot st) [0 .. LISTCOUNT - 1] @ concat (map (\<lambda>y. [y + 8, y + 16]) F)"

definition link_cells :: "state \<Rightarrow> addr list \<Rightarrow> addr list" where
  "link_cells st F = 8 # node_cells st F"

definition links_closed :: "state \<Rightarrow> addr list \<Rightarrow> memory \<Rightarrow> bool" where
  "links_closed st F m = list_all (\<lambda>c. load64 m c \<in> set (0 # F)) (node_cells st F)"

text \<open>
  \<open>free_site_ok st F b\<close>: the block \<open>b\<close> is allocated; a coalescable neighbour is a
  list node of at least the minimum size whose header equals its footer and whose own
  outer neighbour is not coalescable (invariants 2, 3 and 4 of the specification); the
  header and footer words involved (\<open>tags\<close>) are distinct from each other and from
  every word written through a list pointer; the merged size does not wrap.
\<close>

definition free_site_ok :: "state \<Rightarrow> addr list \<Rightarrow> addr \<Rightarrow> bool" where
  "free_site_ok st F b =
     (let m = mem st;
          sb = SIZE m b;
          sp = SIZE m (PREVFTR b);
          P = PREVRAW m b;
          N = NEXTRAW m b;
          sn = SIZE m N;
          pf = (PREVUNCOAL m b = 0);
          nf = (NEXTUNCOAL m b = 0);
          tags = [PREVFTR b, b, b + 8, b + 16, N - 8, N]
                 @ (if pf then [PREVFTR P, P] else [])
                 @ (if nf then [N + sn - 8, N + sn] else [])
      in aligned8 (free_lists st) \<and> list_all aligned8 F \<and> aligned8 b
         \<and> links_closed st F m
         \<and> distinct (tags @ link_cells st F)
         \<and> ISALLOC m b \<noteq> 0
         \<and> (pf \<longrightarrow> P \<in> set F \<and> MINBLOCK \<le> sp \<and> load64 m P = load64 m (PREVFTR b)
                \<and> PREVUNCOAL m P \<noteq> 0)
         \<and> (nf \<longrightarrow> N \<in> set F \<and> MINBLOCK \<le> sn \<and> NEXTUNCOAL m N \<noteq> 0)
         \<and> (if pf then unat sp else 0) + unat sb + (if nf then unat sn else 0) < 2 ^ 64)"

text \<open>
  The block that coalescing \<open>b\<close> produces according to the specification: it starts at
  the previous block when that one is coalescable, and its size is the size of \<open>b\<close>
  plus the sizes of the coalescable neighbours.
\<close>

definition merged_start :: "memory \<Rightarrow> addr \<Rightarrow> addr" where
  "merged_start m b = (if PREVUNCOAL m b = 0 then PREVRAW m b else b)"

definition merged_size :: "memory \<Rightarrow> addr \<Rightarrow> 64 word" where
  "merged_size m b =
     (if PREVUNCOAL m b = 0 then SIZE m (PREVFTR b) else 0) + SIZE m b
     + (if NEXTUNCOAL m b = 0 then SIZE m (NEXTRAW m b) else 0)"

text \<open>
  The invariant on the segregated lists, for the heads: the head of list \<open>i\<close>, for
  \<open>i\<close> from 1 to 74, is null or a block whose size maps to \<open>i\<close>.
\<close>

definition bucket_heads_ok :: "state \<Rightarrow> bool" where
  "bucket_heads_ok st =
     list_all (\<lambda>i. load64 (mem st) (list_slot st i) \<noteq> 0 \<longrightarrow>
                   find_list_index (SIZE (mem st) (load64 (mem st) (list_slot st i))) = i)
       [1 .. LISTCOUNT - 1]"

section \<open>Memory lemmas\<close>

lemma bit_byte_at:
  fixes v :: "64 word"
  shows "bit (push_bit j (ucast (ucast (drop_bit j v) :: 8 word)) :: 64 word) n
         \<longleftrightarrow> j \<le> n \<and> n < j + 8 \<and> bit v n"
proof (cases "n < 64")
  case True
  then show ?thesis by (auto simp add: bit_push_bit_iff bit_ucast_iff bit_drop_bit_eq)
next
  case False
  then have "\<not> bit v n" "\<not> bit (push_bit j (ucast (ucast (drop_bit j v) :: 8 word)) :: 64 word) n"
    by (auto dest: bit_imp_le_length)
  then show ?thesis by simp
qed

lemma bytes_rejoin:
  "ucast (ucast v :: 8 word) OR push_bit 8 (ucast (ucast (drop_bit 8 v) :: 8 word))
   OR push_bit 16 (ucast (ucast (drop_bit 16 v) :: 8 word))
   OR push_bit 24 (ucast (ucast (drop_bit 24 v) :: 8 word))
   OR push_bit 32 (ucast (ucast (drop_bit 32 v) :: 8 word))
   OR push_bit 40 (ucast (ucast (drop_bit 40 v) :: 8 word))
   OR push_bit 48 (ucast (ucast (drop_bit 48 v) :: 8 word))
   OR push_bit 56 (ucast (ucast (drop_bit 56 v) :: 8 word)) = (v :: 64 word)"
proof (rule bit_eqI)
  fix n
  assume "possible_bit TYPE(64 word) n"
  then have n: "n < 64" by (simp add: possible_bit_def)
  have b0: "bit (ucast (ucast v :: 8 word) :: 64 word) n \<longleftrightarrow> n < 8 \<and> bit v n"
    using bit_byte_at[of 0 v n] by simp
  have b1: "bit (push_bit 8 (ucast (ucast (drop_bit 8 v) :: 8 word)) :: 64 word) n \<longleftrightarrow> 8 \<le> n \<and> n < 16 \<and> bit v n"
    using bit_byte_at[of 8 v n] by simp
  have b2: "bit (push_bit 16 (ucast (ucast (drop_bit 16 v) :: 8 word)) :: 64 word) n \<longleftrightarrow> 16 \<le> n \<and> n < 24 \<and> bit v n"
    using bit_byte_at[of 16 v n] by simp
  have b3: "bit (push_bit 24 (ucast (ucast (drop_bit 24 v) :: 8 word)) :: 64 word) n \<longleftrightarrow> 24 \<le> n \<and> n < 32 \<and> bit v n"
    using bit_byte_at[of 24 v n] by simp
  have b4: "bit (push_bit 32 (ucast (ucast (drop_bit 32 v) :: 8 word)) :: 64 word) n \<longleftrightarrow> 32 \<le> n \<and> n < 40 \<and> bit v n"
    using bit_byte_at[of 32 v n] by simp
  have b5: "bit (push_bit 40 (ucast (ucast (drop_bit 40 v) :: 8 word)) :: 64 word) n \<longleftrightarrow> 40 \<le> n \<and> n < 48 \<and> bit v n"
    using bit_byte_at[of 40 v n] by simp
  have b6: "bit (push_bit 48 (ucast (ucast (drop_bit 48 v) :: 8 word)) :: 64 word) n \<longleftrightarrow> 48 \<le> n \<and> n < 56 \<and> bit v n"
    using bit_byte_at[of 48 v n] by simp
  have b7: "bit (push_bit 56 (ucast (ucast (drop_bit 56 v) :: 8 word)) :: 64 word) n \<longleftrightarrow> 56 \<le> n \<and> n < 64 \<and> bit v n"
    using bit_byte_at[of 56 v n] by simp
  have c: "n < 8 \<or> 8 \<le> n \<and> n < 16 \<or> 16 \<le> n \<and> n < 24 \<or> 24 \<le> n \<and> n < 32
    \<or> 32 \<le> n \<and> n < 40 \<or> 40 \<le> n \<and> n < 48 \<or> 48 \<le> n \<and> n < 56 \<or> 56 \<le> n \<and> n < 64"
    using n by arith
  show "bit ((ucast (ucast v :: 8 word) :: 64 word) OR push_bit 8 (ucast (ucast (drop_bit 8 v) :: 8 word))
   OR push_bit 16 (ucast (ucast (drop_bit 16 v) :: 8 word))
   OR push_bit 24 (ucast (ucast (drop_bit 24 v) :: 8 word))
   OR push_bit 32 (ucast (ucast (drop_bit 32 v) :: 8 word))
   OR push_bit 40 (ucast (ucast (drop_bit 40 v) :: 8 word))
   OR push_bit 48 (ucast (ucast (drop_bit 48 v) :: 8 word))
   OR push_bit 56 (ucast (ucast (drop_bit 56 v) :: 8 word))) n = bit v n"
    unfolding bit_or_iff b0 b1 b2 b3 b4 b5 b6 b7 using c by blast
qed

lemma load64_store64_same: "load64 (store64 m a v) a = v"
proof -
  have b: "(a + k) - a = k" for k :: addr by simp
  show ?thesis
    unfolding load64_def store64_def b
    using bytes_rejoin[of v] by simp
qed

lemma far_add_not_near:
  fixes d k :: addr
  assumes "8 \<le> d" "8 \<le> - d" "k < 8"
  shows "\<not> d + k < 8"
proof -
  have d0: "d \<noteq> 0" using assms(1) by auto
  have "unat d \<noteq> 0" using d0 by (simp add: unat_eq_0)
  then have "unat (- d) = 2 ^ 64 - unat d"
    using unat_sub_if_size[of 0 d] by (simp add: word_size)
  then have "unat d + 8 \<le> 2 ^ 64" using assms(2) unsigned_less[of d]
    by (simp add: word_le_nat_alt)
  moreover have "unat k < 8" using assms(3) by (simp add: word_less_nat_alt)
  ultimately have "unat (d + k) = unat d + unat k"
    by (intro unat_add_lem[THEN iffD1]) simp
  then show ?thesis using assms(1) by (simp add: word_less_nat_alt word_le_nat_alt)
qed

lemma load64_store64_other:
  assumes "8 \<le> b - a" "8 \<le> a - b"
  shows "load64 (store64 m a v) b = load64 m b"
proof -
  have k: "\<not> (b + k) - a < 8" if "k < 8" for k :: addr
  proof -
    have e: "b + k - a = (b - a) + k" by simp
    show ?thesis unfolding e using assms that by (intro far_add_not_near) simp_all
  qed
  show ?thesis
    unfolding load64_def store64_def
    using k[of 0] k[of 1] k[of 2] k[of 3] k[of 4] k[of 5] k[of 6] k[of 7] by simp
qed

section \<open>Aligned addresses and the word view\<close>

lemma seven_mask: "(7 :: addr) = mask 3"
  by (simp add: mask_eq_exp_minus_1)

lemma low_bits_clear: "(a :: addr) AND 7 = 0 \<Longrightarrow> n < 3 \<Longrightarrow> \<not> bit a n"
proof
  assume a: "a AND 7 = 0" and n: "n < 3" and b: "bit a n"
  have "bit (a AND mask 3) n" using n b by (simp add: bit_and_iff bit_mask_iff)
  then show False using a by (simp add: seven_mask)
qed

lemma high_bits_clear: "(k :: addr) AND NOT 7 = 0 \<Longrightarrow> 3 \<le> n \<Longrightarrow> \<not> bit k n"
proof
  assume a: "k AND NOT 7 = 0" and n: "3 \<le> n" and b: "bit k n"
  have "n < 64" using b by (auto dest: bit_imp_le_length)
  then have "bit (k AND NOT (mask 3)) n" using n b by (simp add: bit_and_iff bit_not_iff bit_mask_iff)
  then show False using a by (simp add: seven_mask)
qed

lemma lt8_high: "(k :: addr) < 8 \<Longrightarrow> k AND NOT 7 = 0"
proof -
  assume "k < 8"
  then have "k < 2 ^ 3" by simp
  then have "k AND mask 3 = k" by (rule less_mask_eq)
  then have "k AND NOT 7 = (k AND mask 3) AND NOT (mask 3)" by (simp add: seven_mask)
  also have "\<dots> = 0" by (simp add: and.assoc)
  finally show ?thesis .
qed

lemma and7_lt8: "(x :: addr) AND 7 < 8"
proof -
  have "x AND mask 3 < 2 ^ 3" by (rule and_mask_less') simp
  then show ?thesis by (simp add: seven_mask)
qed

lemma split_at: "(x AND NOT w) + (x AND w) = (x :: addr)"
proof -
  have "(x AND NOT w) AND (x AND w) = 0"
    by (rule bit_eqI) (simp add: bit_and_iff bit_not_iff)
  then have "(x AND NOT w) + (x AND w) = (x AND NOT w) OR (x AND w)"
    by (rule disjunctive_add_eq_or)
  also have "\<dots> = x"
    by (rule bit_eqI) (auto simp add: bit_and_iff bit_or_iff bit_not_iff dest: bit_imp_le_length)
  finally show ?thesis .
qed

lemma split_low: "(x AND NOT 7) + (x AND 7) = (x :: addr)"
  by (rule split_at)

lemma aligned_add:
  fixes a k :: addr
  assumes "a AND 7 = 0" "k AND NOT 7 = 0"
  shows "(a + k) AND 7 = k" "(a + k) AND NOT 7 = a"
proof -
  have la: "\<not> bit a n" if "n < 3" for n using assms(1) that by (rule low_bits_clear)
  have hk: "\<not> bit k n" if "3 \<le> n" for n using assms(2) that by (rule high_bits_clear)
  have "a AND k = 0"
  proof (rule bit_eqI)
    fix n show "bit (a AND k) n = bit (0 :: addr) n"
      using la[of n] hk[of n] by (cases "n < 3") (simp_all add: bit_and_iff)
  qed
  then have e: "a + k = a OR k" by (rule disjunctive_add_eq_or)
  show "(a + k) AND 7 = k" unfolding e seven_mask
  proof (rule bit_eqI)
    fix n show "bit ((a OR k) AND mask 3) n = bit k n"
      using la[of n] hk[of n] by (cases "n < 3") (auto simp add: bit_and_iff bit_or_iff bit_mask_iff)
  qed
  show "(a + k) AND NOT 7 = a" unfolding e seven_mask
  proof (rule bit_eqI)
    fix n show "bit ((a OR k) AND NOT (mask 3)) n = bit a n"
      using la[of n] hk[of n]
      by (cases "n < 3") (auto simp add: bit_and_iff bit_or_iff bit_not_iff bit_mask_iff dest: bit_imp_le_length)
  qed
qed

lemma near_iff_same_word:
  fixes a x :: addr
  assumes "a AND 7 = 0"
  shows "x - a < 8 \<longleftrightarrow> x AND NOT 7 = a"
proof
  assume "x - a < 8"
  then have "(x - a) AND NOT 7 = 0" by (rule lt8_high)
  then have "(a + (x - a)) AND NOT 7 = a" using assms by (intro aligned_add)
  then show "x AND NOT 7 = a" by simp
next
  assume e: "x AND NOT 7 = a"
  have "x - a = x AND 7" using split_low[of x] unfolding e by (metis add_diff_cancel_left')
  then show "x - a < 8" using and7_lt8[of x] by simp
qed

lemma near_offset:
  fixes a x :: addr
  assumes "a AND 7 = 0" "x - a < 8"
  shows "x - a = x AND 7"
proof -
  have e: "x AND NOT 7 = a" using assms near_iff_same_word by blast
  show ?thesis using split_low[of x] unfolding e by (metis add_diff_cancel_left')
qed

lemma store64_wmem:
  assumes "a AND 7 = 0"
  shows "store64 (wmem al) a v = wmem (wupd a v al)"
proof
  fix x
  show "store64 (wmem al) a v x = wmem (wupd a v al) x"
  proof (cases "x - a < 8")
    case True
    then have "x AND NOT 7 = a" "x - a = x AND 7"
      using assms near_iff_same_word near_offset by blast+
    then show ?thesis using True by (simp add: store64_def wmem_def wupd_def wlookup_def)
  next
    case False
    then have n: "x AND NOT 7 \<noteq> a" using assms near_iff_same_word by blast
    have "map_of (filter (\<lambda>p. fst p \<noteq> a) al) (x AND NOT 7) = map_of al (x AND NOT 7)"
      using n by (induction al) auto
    then show ?thesis using False n by (simp add: store64_def wmem_def wupd_def wlookup_def)
  qed
qed

lemma load64_wmem:
  assumes "a AND 7 = 0"
  shows "load64 (wmem al) a = wlookup al a"
proof -
  have k: "(a + k) AND 7 = k \<and> (a + k) AND NOT 7 = a" if "k < 8" for k
    using assms lt8_high[OF that] aligned_add by blast
  have a0: "a AND NOT 7 = a" using k[of 0] by simp
  show ?thesis
    unfolding load64_def wmem_def
    using k[of 1] k[of 2] k[of 3] k[of 4] k[of 5] k[of 6] k[of 7] assms a0
      bytes_rejoin[of "wlookup al a"]
    by simp
qed

lemma zero_wmem: "(\<lambda>_. 0) = wmem []"
  by (rule ext) (simp add: wmem_def wlookup_def)

lemma memset_zero_wmem: "memset (wmem []) p 0 n = wmem []"
  by (rule ext) (simp add: memset_def wmem_def wlookup_def)

lemma fresh_wmem:
  "fresh b lm = \<lparr>mem = wmem [], brk = b, brk_limit = lm, errno = 0, init = 0,
     free_lists = 0, prologue = 0, epilogue = 0\<rparr>"
  by (simp add: fresh_def zero_wmem)

text \<open>The unfolding rules that run the model on a concrete heap.\<close>

lemmas macro_defs = WSIZE_def DSIZE_def ALIGNMENT_def MINBLOCK_def MAXSMALL_def LISTCOUNT_def
  ALIGN_def USERTOBLOCK_def BLOCKTOUSER_def get_next_def get_prev_def set_next_def set_prev_def
  SIZE_def USERSIZE_def BLOCKSIZE_def ISALLOC_def ISQUICK_def MARKUNQUICK_def MARKALLOC_def
  MARKFREE_def SETSIZEHDR_def BOUNDINIT_def GETFTR_def HDRTOFTR_def SETSIZE_def PREVFTR_def
  PREVRAW_def PREVUNCOAL_def NEXTRAW_def NEXTUNCOAL_def ENOMEM_def SIZE_MAX_def list_slot_def

lemmas run_defs = macro_defs sbrk_def malloc_init_def malloc_def malloc_place_def malloc_take_def
  find_block_def unsorted_sweep.simps segregated_scan.simps find_in_list_def find_in_list_loop.simps
  count_bits.simps find_list_index_def coalesce_def free_list_remove_def free_list_insert_def
  extend_heap_def split_block_def free_def realloc_def realloc_move_def realloc_coalesce_def
  coalesce_loop.simps calloc_def Let_def
  load64_wmem store64_wmem memset_zero_wmem wlookup_def wupd_def

section \<open>The list index\<close>

lemma count_bits_floorlog: "count_bits s l = l + int (floorlog 2 (unat s))"
proof (induction s l rule: count_bits.induct)
  case (1 s l)
  show ?case
  proof (cases "s = 0")
    case True
    then show ?thesis by (simp add: count_bits.simps floorlog_def)
  next
    case False
    then have pos: "0 < unat s" by (simp add: unat_gt_0)
    have "count_bits s l = count_bits (drop_bit 1 s) (l + 1)"
      using False by (subst count_bits.simps) simp
    also have "\<dots> = l + 1 + int (floorlog 2 (unat (drop_bit 1 s)))"
      using 1 False by simp
    also have "unat (drop_bit 1 s) = unat s div 2"
      by (simp add: drop_bit_eq_div unat_div)
    also have "l + 1 + int (floorlog 2 (unat s div 2)) = l + int (floorlog 2 (unat s))"
      using pos by (subst (2) compute_floorlog) simp
    finally show ?thesis .
  qed
qed

lemma sint_small: 
  fixes w :: "64 word"
  assumes "unat w < 2 ^ 31"
  shows "sint (ucast w :: 32 word) = int (unat w)"
proof -
  have "int (unat w) < int (2 ^ 31)" using assms by (simp only: of_nat_less_iff)
  then have u: "uint w < 2 ^ 31" by (simp only: uint_nat of_nat_power of_nat_numeral)
  have "uint (ucast w :: 32 word) = take_bit 32 (uint w)"
    by (simp add: unsigned_ucast_eq)
  also have "\<dots> = uint w"
  proof (rule take_bit_int_eq_self)
    show "0 \<le> uint w" by simp
    have "(2::int) ^ 31 \<le> 2 ^ 32" by simp
    then show "uint w < 2 ^ 32" using u by linarith
  qed
  finally have e: "uint (ucast w :: 32 word) = uint w" .
  have "sint (ucast w :: 32 word) = signed_take_bit (32 - 1) (uint (ucast w :: 32 word))"
    using sint_uint[of "ucast w :: 32 word"] by simp
  also have "\<dots> = uint w" unfolding e
  proof (rule signed_take_bit_int_eq_self)
    have "- ((2::int) ^ (32 - 1)) \<le> 0" by simp
    also have "0 \<le> uint w" by simp
    finally show "- (2 ^ (32 - 1)) \<le> uint w" by simp
    show "uint w < 2 ^ (32 - 1)" using u by simp
  qed
  finally show ?thesis unfolding uint_nat .
qed

lemma fli_small:
  assumes "s < 512" "8 \<le> s"
  shows "find_list_index s = int (unat s div 8) - 1"
proof -
  have s: "unat s < 512" "8 \<le> unat s" using assms by (simp_all add: word_less_nat_alt word_le_nat_alt)
  have d: "unat (drop_bit 3 s) = unat s div 8" by (simp add: drop_bit_eq_div unat_div)
  have "1 \<le> unat s div 8" using s by simp
  then have "1 \<le> drop_bit 3 s" using d by (simp add: word_le_nat_alt)
  then have "unat (drop_bit 3 s - 1) = unat s div 8 - 1"
    using d by (simp add: unat_sub)
  moreover have "unat s div 8 - 1 < 2 ^ 31" using s by simp
  ultimately have "sint (ucast (drop_bit 3 s - 1) :: 32 word) = int (unat s div 8 - 1)"
    using sint_small[of "drop_bit 3 s - 1"] by simp
  then show ?thesis using assms \<open>1 \<le> unat s div 8\<close> by (simp add: find_list_index_def)
qed


lemma fli_large:
  "512 \<le> s \<Longrightarrow> find_list_index s = min (63 + int (floorlog 2 (unat (drop_bit 10 s)))) (LISTCOUNT - 1)"
proof -
  assume "512 \<le> s"
  then have "\<not> s < 512" by (simp add: linorder_not_less)
  then show ?thesis
    by (simp add: find_list_index_def count_bits_floorlog LISTCOUNT_def Let_def min_def)
qed

lemma floorlog_shift_le: "floorlog 2 (unat (drop_bit 10 (s :: 64 word))) \<le> w \<longleftrightarrow> unat s < 2 ^ (w + 10)"
proof -
  have "unat (drop_bit 10 s) = unat s div 2 ^ 10" by (simp add: drop_bit_eq_div unat_div)
  moreover have "unat s div 2 ^ 10 < 2 ^ w \<longleftrightarrow> unat s < 2 ^ w * 2 ^ 10"
    by (rule div_less_iff_less_mult) simp
  ultimately show ?thesis by (simp add: floorlog_le_iff power_add)
qed

lemma fli_large_eq:
  assumes "512 \<le> s" "j \<le> 10"
  shows "find_list_index s = 63 + int j \<longleftrightarrow> 2 ^ (j + 9) \<le> unat s \<and> unat s < 2 ^ (j + 10)"
proof -
  let ?k = "floorlog 2 (unat (drop_bit 10 s))"
  have s: "2 ^ 9 \<le> unat s" using assms(1) by (simp add: word_le_nat_alt)
  have "find_list_index s = 63 + int j \<longleftrightarrow> ?k = j"
    using assms by (simp add: fli_large LISTCOUNT_def min_def)
  also have "\<dots> \<longleftrightarrow> ?k \<le> j \<and> (j = 0 \<or> \<not> ?k \<le> j - 1)" by auto
  also have "\<dots> \<longleftrightarrow> unat s < 2 ^ (j + 10) \<and> (j = 0 \<or> \<not> unat s < 2 ^ (j - 1 + 10))"
    by (simp only: floorlog_shift_le)
  also have "\<dots> \<longleftrightarrow> 2 ^ (j + 9) \<le> unat s \<and> unat s < 2 ^ (j + 10)"
  proof (cases j)
    case 0
    then show ?thesis using s by auto
  next
    case (Suc i)
    then show ?thesis by (auto simp: linorder_not_less add.commute)
  qed
  finally show ?thesis .
qed

lemma fli_large_last:
  assumes "512 \<le> s"
  shows "find_list_index s = 74 \<longleftrightarrow> 2 ^ 20 \<le> unat s"
proof -
  let ?k = "floorlog 2 (unat (drop_bit 10 s))"
  have "find_list_index s = 74 \<longleftrightarrow> \<not> ?k \<le> 10"
    using assms by (auto simp add: fli_large LISTCOUNT_def min_def)
  also have "\<dots> \<longleftrightarrow> 2 ^ 20 \<le> unat s"
    by (simp only: floorlog_shift_le) (simp add: linorder_not_less)
  finally show ?thesis .
qed

section \<open>Runs on concrete heaps\<close>

lemma run_malloc_first: "malloc (fresh 4096 65536) 16 = Some (heap1, 4720)"
  by (simp add: fresh_wmem heap1_def run_defs
      cong: let_weak_cong prod.case_cong_weak option.case_cong_weak)

lemma run_malloc_second: "malloc heap1 16 = Some (heap2, 4760)"
  by (simp add: heap1_def heap2_def run_defs
      cong: let_weak_cong prod.case_cong_weak option.case_cong_weak)

lemma run_realloc_zero: "realloc heap1 4720 0 = Some (heap3, 4720)"
  by (simp add: heap1_def heap3_def run_defs
      cong: let_weak_cong prod.case_cong_weak option.case_cong_weak)

lemma run_malloc_zero: "malloc (fresh 4096 65536) 0 = Some (heap0, 0)"
  by (simp add: fresh_wmem heap0_def run_defs
      cong: let_weak_cong prod.case_cong_weak option.case_cong_weak)

lemma run_tight1: "malloc (fresh 4096 5000) 16 = Some (tight1, 4720)"
  by (simp add: fresh_wmem tight1_def run_defs
      cong: let_weak_cong prod.case_cong_weak option.case_cong_weak)

lemma run_tight2: "malloc tight1 16 = Some (tight2, 4760)"
  by (simp add: tight1_def tight2_def run_defs
      cong: let_weak_cong prod.case_cong_weak option.case_cong_weak)

lemma run_tight3: "free tight2 4760 = tight3"
  by (simp add: tight2_def tight3_def run_defs
      cong: let_weak_cong prod.case_cong_weak option.case_cong_weak)

lemma run_tight4: "realloc tight3 4720 1000 = Some (tight4, 0)"
  by (simp add: tight3_def tight4_def run_defs
      cong: let_weak_cong prod.case_cong_weak option.case_cong_weak)

lemma run_big1: "malloc (fresh 4096 65536) 200 = Some (big1, 4720)"
  by (simp add: fresh_wmem big1_def run_defs
      cong: let_weak_cong prod.case_cong_weak option.case_cong_weak)

lemma run_big2: "malloc big1 16 = Some (big2, 4944)"
  by (simp add: big1_def big2_def run_defs
      cong: let_weak_cong prod.case_cong_weak option.case_cong_weak)

lemma run_big3: "free big2 4944 = big3"
  by (simp add: big2_def big3_def run_defs
      cong: let_weak_cong prod.case_cong_weak option.case_cong_weak)

lemma run_big4: "realloc big3 4720 16 = Some (big4, 4720)"
  by (simp add: big3_def big4_def run_defs
      cong: let_weak_cong prod.case_cong_weak option.case_cong_weak)

lemma run_reuse1: "free heap2 4720 = reuse1"
  by (simp add: heap2_def reuse1_def run_defs
      cong: let_weak_cong prod.case_cong_weak option.case_cong_weak)

lemma run_reuse2: "malloc reuse1 100 = Some (reuse2, 4800)"
  by (simp add: reuse1_def reuse2_def run_defs
      cong: let_weak_cong prod.case_cong_weak option.case_cong_weak)

lemma run_reuse3: "find_block reuse2 40 = Some (reuse2, 4712)"
  by (simp add: reuse2_def run_defs
      cong: let_weak_cong prod.case_cong_weak option.case_cong_weak)

lemma run_zeroed1: "calloc (fresh 4096 65536) 2 8 = Some (zeroed1, 4720)"
  by (simp add: fresh_wmem zeroed1_def run_defs
      cong: let_weak_cong prod.case_cong_weak option.case_cong_weak)


lemma run_trio1: "malloc heap2 16 = Some (trio1, 4800)"
  by (simp add: heap2_def trio1_def run_defs
      cong: let_weak_cong prod.case_cong_weak option.case_cong_weak)

lemma run_trio2: "free (free trio1 4720) 4800 = trio2"
  by (simp add: trio1_def trio2_def run_defs
      cong: let_weak_cong prod.case_cong_weak option.case_cong_weak)

section \<open>Initialisation\<close>

lemma malloc_init_done: "0 < init st \<Longrightarrow> malloc_init st = (st, 0)"
  by (simp add: malloc_init_def)

lemma malloc_init_rc: "snd (malloc_init st) = 0 \<or> snd (malloc_init st) = - 1"
  by (simp add: malloc_init_def Let_def split: prod.splits)

lemma sbrk_ok_errno: "sbrk st n = (st', r) \<Longrightarrow> errno st' = errno st \<or> r = - 1"
  by (auto simp: sbrk_def split: if_splits)

lemma malloc_init_errno:
  "snd (malloc_init st) = 0 \<Longrightarrow> errno (fst (malloc_init st)) = errno st"
proof (cases "0 < init st")
  case True
  then show ?thesis by (simp add: malloc_init_def)
next
  case False
  assume rc: "snd (malloc_init st) = 0"
  obtain sta fl where a: "sbrk st (8 * 75) = (sta, fl)" by fastforce
  define st2 where "st2 = sta\<lparr>free_lists := fl, mem := memset (mem sta) fl 0 (8 * 75)\<rparr>"
  obtain st3 ob where b: "sbrk st2 0 = (st3, ob)" by fastforce
  obtain st4 r where c: "sbrk st3 (ALIGN (ALIGN ob - ob + WSIZE + 24)) = (st4, r)" by fastforce
  have ok: "fl \<noteq> - 1 \<and> ob \<noteq> - 1 \<and> r \<noteq> - 1"
    using rc False a b c by (auto simp: malloc_init_def Let_def st2_def split: if_splits)
  then have "errno sta = errno st" "errno st3 = errno st2" "errno st4 = errno st3"
    using sbrk_ok_errno[OF a] sbrk_ok_errno[OF b] sbrk_ok_errno[OF c] by auto
  then have "errno st4 = errno st" by (simp add: st2_def)
  then show ?thesis
    using ok False a b c by (simp add: malloc_init_def Let_def st2_def)
qed

lemma malloc_init_fail_errno:
  "snd (malloc_init st) < 0 \<Longrightarrow> errno (fst (malloc_init st)) = ENOMEM"
  by (auto simp: malloc_init_def Let_def split: prod.splits if_splits)

section \<open>Claims\<close>

subsection \<open>C1: alignment of returned pointers\<close>

text \<open>
  C1 states that every non-null pointer returned by allocate, zeroed-allocate or resize
  is a multiple of \<open>A = 2 * W = 16\<close>. \<^verbatim>\<open>ALIGN\<close> adds \<open>ALIGNMENT - 1\<close> but masks
  with \<^verbatim>\<open>~0x7\<close>, so block sizes are multiples of 8 only: a request of 16 bytes gets a
  block of 40 bytes. Starting from a 16-aligned break, the first \<^verbatim>\<open>malloc(16)\<close>
  returns 4720 and the second returns 4760, which is 8 modulo 16.
\<close>

theorem malloc_second_pointer_misaligned:
  "malloc (fresh 4096 65536) 16 = Some (heap1, 4720) \<and> malloc heap1 16 = Some (heap2, 4760)
   \<and> unat (4760 :: addr) mod unat ALIGNMENT = 8 \<and> ALIGN (BLOCKSIZE 16) = 40"
  using run_malloc_first run_malloc_second by (simp add: macro_defs)

subsection \<open>C2: a failed resize\<close>

text \<open>
  C2 states that a failed resize leaves no partial state visible. Counterexample: with
  the \<^verbatim>\<open>sbrk\<close> limit at 5000, two blocks are allocated and the second is freed;
  \<^verbatim>\<open>realloc\<close> of the first to 1000 bytes coalesces it with the freed block and then
  fails to extend the heap. It returns null, but the unsorted list, whose head was the
  freed block at 4752, is now empty, and the block's recorded size went from 40 to 80.
\<close>

theorem realloc_failure_visible:
  "malloc (fresh 4096 5000) 16 = Some (tight1, 4720) \<and> malloc tight1 16 = Some (tight2, 4760)
   \<and> free tight2 4760 = tight3 \<and> realloc tight3 4720 1000 = Some (tight4, 0)
   \<and> load64 (mem tight3) (list_slot tight3 0) = 4752
   \<and> load64 (mem tight4) (list_slot tight4 0) = 0
   \<and> SIZE (mem tight3) (USERTOBLOCK 4720) = 40
   \<and> SIZE (mem tight4) (USERTOBLOCK 4720) = 80"
  using run_tight1 run_tight2 run_tight3 run_tight4
  by (simp add: tight3_def tight4_def macro_defs load64_wmem wlookup_def)

lemma free_list_remove_globals [simp]:
  "brk (free_list_remove st b) = brk st"
  "brk_limit (free_list_remove st b) = brk_limit st"
  "errno (free_list_remove st b) = errno st"
  "init (free_list_remove st b) = init st"
  "free_lists (free_list_remove st b) = free_lists st"
  "prologue (free_list_remove st b) = prologue st"
  "epilogue (free_list_remove st b) = epilogue st"
  by (simp_all add: free_list_remove_def Let_def)

lemma coalesce_globals [simp]:
  "brk (fst (coalesce st b)) = brk st"
  "brk_limit (fst (coalesce st b)) = brk_limit st"
  "errno (fst (coalesce st b)) = errno st"
  "init (fst (coalesce st b)) = init st"
  "free_lists (fst (coalesce st b)) = free_lists st"
  "prologue (fst (coalesce st b)) = prologue st"
  "epilogue (fst (coalesce st b)) = epilogue st"
  by (simp_all add: coalesce_def Let_def split_def)

lemma coalesce_loop_globals:
  "brk (fst (coalesce_loop st b)) = brk st \<and>
   brk_limit (fst (coalesce_loop st b)) = brk_limit st \<and>
   errno (fst (coalesce_loop st b)) = errno st \<and>
   init (fst (coalesce_loop st b)) = init st \<and>
   free_lists (fst (coalesce_loop st b)) = free_lists st \<and>
   prologue (fst (coalesce_loop st b)) = prologue st \<and>
   epilogue (fst (coalesce_loop st b)) = epilogue st"
proof (induction st b rule: coalesce_loop.induct)
  case (1 st b)
  obtain st1 b1 where c: "coalesce st b = (st1, b1)" by fastforce
  have g: "brk st1 = brk st" "brk_limit st1 = brk_limit st" "errno st1 = errno st"
    "init st1 = init st" "free_lists st1 = free_lists st" "prologue st1 = prologue st"
    "epilogue st1 = epilogue st"
    using coalesce_globals[of st b] c by simp_all
  show ?case
  proof (cases "SIZE (mem st1) b1 > SIZE (mem st) b")
    case True
    then have "coalesce_loop st b = coalesce_loop st1 b1"
      using c by (subst coalesce_loop.simps) simp
    then show ?thesis using "1.IH"[OF refl c[symmetric] refl True] g by simp
  next
    case False
    then have "coalesce_loop st b = (st1, b1)"
      using c by (subst coalesce_loop.simps) simp
    then show ?thesis using g by simp
  qed
qed

lemma coalesce_isolated:
  "PREVUNCOAL (mem st) b \<noteq> 0 \<Longrightarrow> NEXTUNCOAL (mem st) b \<noteq> 0 \<Longrightarrow> coalesce st b = (st, b)"
  by (simp add: coalesce_def Let_def)

lemma coalesce_loop_isolated:
  "PREVUNCOAL (mem st) b \<noteq> 0 \<Longrightarrow> NEXTUNCOAL (mem st) b \<noteq> 0 \<Longrightarrow> coalesce_loop st b = (st, b)"
  by (subst coalesce_loop.simps) (simp add: coalesce_isolated)

lemma extend_heap_null:
  assumes "extend_heap st n = (st2, 0)" "epilogue st \<noteq> 0" "brk st \<noteq> - 1"
  shows "st2 = st\<lparr>errno := ENOMEM\<rparr>"
  using assms by (auto simp: extend_heap_def sbrk_def Let_def split: if_splits)

lemma realloc_move_ptr: "snd (realloc_move st ptr new osz) = new"
  by (simp add: realloc_move_def Let_def)


text \<open>
  C2 as amended: a resize of a non-null pointer to \<open>usz > 0\<close> bytes that returns null,
  on an initialised allocator whose break is not the address \<open>2^64 - 1\<close> (the value
  \<^verbatim>\<open>sbrk\<close> returns on failure) and for a block whose payload address is not the null
  pointer, has set \<^verbatim>\<open>errno\<close> to \<^verbatim>\<open>ENOMEM\<close>, and it failed on the grow path: the
  block, coalesced with its free neighbours, is still smaller than the block size
  required. The coalescing is not undone. When the block is the last one before the
  epilogue the state left is the coalesced state with \<^verbatim>\<open>errno\<close> set; otherwise it is
  the state left by the failed \<^verbatim>\<open>malloc\<close>, with \<^verbatim>\<open>errno\<close> set. When the block
  has no coalescable neighbour the coalescing changes nothing.
\<close>

theorem realloc_failure:
  assumes "ptr \<noteq> 0" "usz \<noteq> 0" "epilogue st \<noteq> 0"
    and "realloc st ptr usz = Some (st', 0)"
    and "realloc_coalesce st (USERTOBLOCK ptr) (ALIGN (BLOCKSIZE usz)) = (st1, b)"
    and "BLOCKTOUSER b \<noteq> 0"
    and "brk st \<noteq> - 1"
  shows "errno st' = ENOMEM \<and> SIZE (mem st1) b < ALIGN (BLOCKSIZE usz)
     \<and> (NEXTRAW (mem st1) b = epilogue st1 \<longrightarrow> st' = st1\<lparr>errno := ENOMEM\<rparr>)
     \<and> (NEXTRAW (mem st1) b \<noteq> epilogue st1 \<longrightarrow>
          (\<exists>st2. malloc st1 (ALIGN (BLOCKSIZE usz)) = Some (st2, 0) \<and> st' = st2\<lparr>errno := ENOMEM\<rparr>))
     \<and> (PREVUNCOAL (mem st) (USERTOBLOCK ptr) \<noteq> 0 \<and> NEXTUNCOAL (mem st) (USERTOBLOCK ptr) \<noteq> 0 \<longrightarrow>
          st1 = st \<and> b = USERTOBLOCK ptr)"
proof -
  let ?sz = "ALIGN (BLOCKSIZE usz)"
  have ep: "epilogue st1 = epilogue st" "brk st1 = brk st"
    using assms(5) coalesce_loop_globals[of st "USERTOBLOCK ptr"]
    by (auto simp: realloc_coalesce_def split: if_splits)
  have iso: "PREVUNCOAL (mem st) (USERTOBLOCK ptr) \<noteq> 0 \<and> NEXTUNCOAL (mem st) (USERTOBLOCK ptr) \<noteq> 0 \<longrightarrow>
          st1 = st \<and> b = USERTOBLOCK ptr"
    using assms(5) by (auto simp: realloc_coalesce_def coalesce_loop_isolated split: if_splits)
  have small: "SIZE (mem st1) b < ?sz"
  proof (rule ccontr)
    assume "\<not> SIZE (mem st1) b < ?sz"
    then have "realloc st ptr usz = Some (split_block
        (let st2 = (if ISALLOC (mem st1) b = 0 then free_list_remove st1 b else st1)
         in if BLOCKTOUSER b \<noteq> ptr
            then st2\<lparr>mem := memmove (mem st2) (BLOCKTOUSER b) ptr
                   (if USERSIZE (mem st) (USERTOBLOCK ptr) < ?sz
                    then USERSIZE (mem st) (USERTOBLOCK ptr) else ?sz)\<rparr>
            else st2) b ?sz, BLOCKTOUSER b)"
      using assms(1,2,5) by (simp add: realloc_def Let_def)
    then show False using assms(4,6) by simp
  qed
  show ?thesis
  proof (cases "NEXTRAW (mem st1) b = epilogue st1")
    case True
    obtain st2 r where e: "extend_heap st1 (?sz - SIZE (mem st1) b) = (st2, r)" by fastforce
    have "r = 0"
    proof (rule ccontr)
      assume "r \<noteq> 0"
      then have "\<exists>s. realloc st ptr usz = Some (realloc_move s ptr (BLOCKTOUSER b)
           (USERSIZE (mem st) (USERTOBLOCK ptr)))"
        using assms(1,2,5) small True e by (auto simp add: realloc_def Let_def)
      then show False using assms(4,6) realloc_move_ptr by (metis snd_conv option.inject)
    qed
    then have "st' = st2" using assms(1,2,4,5) small True e by (simp add: realloc_def Let_def)
    moreover have "st2 = st1\<lparr>errno := ENOMEM\<rparr>"
      using extend_heap_null[of st1 _ st2] e \<open>r = 0\<close> ep assms(3,7) by simp
    ultimately show ?thesis using small True iso by simp
  next
    case False
    obtain st2 new where m: "malloc st1 ?sz = Some (st2, new)"
      using assms(1,2,4,5) small False by (auto simp: realloc_def Let_def split: option.splits)
    have "new = 0"
    proof (rule ccontr)
      assume "new \<noteq> 0"
      then have "realloc st ptr usz = Some (realloc_move st2 ptr new
           (USERSIZE (mem st) (USERTOBLOCK ptr)))"
        using assms(1,2,5) small False m by (simp add: realloc_def Let_def)
      then show False using assms(4) \<open>new \<noteq> 0\<close> realloc_move_ptr by (metis snd_conv option.inject)
    qed
    then have "st' = st2\<lparr>errno := ENOMEM\<rparr>"
      using assms(1,2,4,5) small False m by (simp add: realloc_def Let_def)
    then show ?thesis using small False iso m \<open>new = 0\<close> by simp
  qed
qed

text \<open>C2, witness: the failing \<^verbatim>\<open>realloc\<close> of the counterexample.\<close>

theorem realloc_failure_witness:
  "(4720 :: addr) \<noteq> 0 \<and> (1000 :: 64 word) \<noteq> 0 \<and> epilogue tight3 \<noteq> 0
   \<and> brk tight3 \<noteq> - 1
   \<and> realloc tight3 4720 1000 = Some (tight4, 0)
   \<and> realloc_coalesce tight3 (USERTOBLOCK 4720) (ALIGN (BLOCKSIZE 1000)) = (tight4\<lparr>errno := 0\<rparr>, 4712)
   \<and> BLOCKTOUSER 4712 \<noteq> 0
   \<and> errno tight4 = ENOMEM
   \<and> NEXTRAW (mem (tight4\<lparr>errno := 0\<rparr>)) 4712 = epilogue (tight4\<lparr>errno := 0\<rparr>)"
proof -
  have a: "(4720 :: addr) \<noteq> 0" "(1000 :: 64 word) \<noteq> 0" "epilogue tight3 \<noteq> 0" "BLOCKTOUSER 4712 \<noteq> 0"
    by (simp_all add: tight3_def BLOCKTOUSER_def WSIZE_def)
  have c: "realloc_coalesce tight3 (USERTOBLOCK 4720) (ALIGN (BLOCKSIZE 1000)) = (tight4\<lparr>errno := 0\<rparr>, 4712)"
    by (simp add: tight3_def tight4_def run_defs
        cong: let_weak_cong prod.case_cong_weak option.case_cong_weak)
  have n: "NEXTRAW (mem (tight4\<lparr>errno := 0\<rparr>)) 4712 = epilogue (tight4\<lparr>errno := 0\<rparr>)"
    by (simp add: tight4_def macro_defs load64_wmem wlookup_def)
  have k: "brk tight3 \<noteq> - 1" by (simp add: tight3_def)
  have "errno tight4 = ENOMEM"
    using realloc_failure[OF a(1) a(2) a(3) run_tight4 c a(4) k] by blast
  then show ?thesis using a c n k run_tight4 by simp
qed


subsection \<open>C3: resize to zero\<close>

text \<open>
  C3 states that resize with a non-null pointer and size 0 frees the block and returns
  null without further work. After \<^verbatim>\<open>free(ptr)\<close> the function goes on: for the block
  of the first \<^verbatim>\<open>malloc(16)\<close> it takes the freed block off the unsorted list again,
  marks it allocated and returns the same non-null pointer.
\<close>

theorem realloc_zero_returns_block:
  "malloc (fresh 4096 65536) 16 = Some (heap1, 4720)
   \<and> realloc heap1 4720 0 = Some (heap3, 4720)
   \<and> ISALLOC (mem heap3) (USERTOBLOCK 4720) = 1"
  using run_malloc_first run_realloc_zero
  by (simp add: heap3_def macro_defs load64_wmem wlookup_def)

subsection \<open>C4: the large buckets\<close>

text \<open>
  C4 states that for sizes from 512 on the index is \<open>min (63 + k) 74\<close>, with \<open>k\<close> the
  position of the highest set bit of \<open>s >> 10\<close>, and that equivalently index \<open>63 + k\<close>
  holds the sizes in \<open>[2^(k+10), 2^(k+11))\<close>. Counterexample to the second reading:
  1024 lies in \<open>[2^10, 2^11)\<close>, the range given for \<open>k = 0\<close>, but its index is 64.
\<close>

theorem find_list_index_1024:
  "spec_bucket 0 (unat (1024 :: 64 word)) \<and> find_list_index 1024 = 64
   \<and> find_list_index 1024 \<noteq> 63 + int 0"
  by (simp add: spec_bucket_def find_list_index_def count_bits.simps LISTCOUNT_def)

text \<open>
  C4 as amended: for every size \<open>s \<ge> 512\<close> the index is \<open>min (63 + k) 74\<close> where \<open>k\<close>
  is the number of bits of \<open>s >> 10\<close> (0 when \<open>s < 1024\<close>); index \<open>63 + k\<close>, for \<open>k\<close>
  from 0 to 10, holds exactly the sizes in \<open>[2^(k+9), 2^(k+10))\<close>, and index 74 holds
  exactly the sizes from \<open>2^20\<close> on.
\<close>

theorem find_list_index_large:
  assumes "512 \<le> s"
  shows "find_list_index s = min (63 + int (floorlog 2 (unat (drop_bit 10 s)))) (LISTCOUNT - 1)
       \<and> (\<forall>k \<le> 10. find_list_index s = 63 + int k \<longleftrightarrow>
             2 ^ (k + 9) \<le> unat s \<and> unat s < 2 ^ (k + 10))
       \<and> (find_list_index s = LISTCOUNT - 1 \<longleftrightarrow> 2 ^ 20 \<le> unat s)"
  using assms fli_large[of s] fli_large_eq[of s] fli_large_last[of s]
  by (simp add: LISTCOUNT_def)

text \<open>C4, witness: 4096 has index 66 and \<open>2^22\<close> has index 74.\<close>

theorem find_list_index_large_witness:
  "(512 :: 64 word) \<le> 4096 \<and> find_list_index 4096 = 63 + int 3
   \<and> find_list_index 4194304 = LISTCOUNT - 1"
proof -
  have h: "(512 :: 64 word) \<le> 4096" by simp
  have h2: "(512 :: 64 word) \<le> 4194304" by simp
  have "\<forall>k \<le> 10. find_list_index 4096 = 63 + int k \<longleftrightarrow>
          2 ^ (k + 9) \<le> unat (4096 :: 64 word) \<and> unat (4096 :: 64 word) < 2 ^ (k + 10)"
    using find_list_index_large[OF h] by blast
  then have "find_list_index 4096 = 63 + int 3 \<longleftrightarrow>
          2 ^ (3 + 9) \<le> unat (4096 :: 64 word) \<and> unat (4096 :: 64 word) < 2 ^ (3 + 10)"
    by (rule allE[where x = 3]) simp
  then have a: "find_list_index 4096 = 63 + int 3" by simp
  have "find_list_index 4194304 = LISTCOUNT - 1 \<longleftrightarrow> 2 ^ 20 \<le> unat (4194304 :: 64 word)"
    using find_list_index_large[OF h2] by blast
  then have b: "find_list_index 4194304 = LISTCOUNT - 1" by simp
  show ?thesis using h a b by blast
qed

subsection \<open>C5: adjacent free blocks\<close>

text \<open>
  C5 states that after every public operation no two physically adjacent blocks are both
  free and coalescable. Counterexample: a block of 224 bytes is followed by a block that
  has been freed; shrinking the first with \<^verbatim>\<open>realloc\<close> splits it, and the remainder
  at 4752 goes on the unsorted list without being coalesced. When \<^verbatim>\<open>realloc\<close>
  returns, the remainder and the freed block at 4936 are both on the unsorted list,
  adjacent in the address space, and both coalescable.
\<close>

theorem resize_shrink_adjacent_free:
  "malloc (fresh 4096 65536) 200 = Some (big1, 4720) \<and> malloc big1 16 = Some (big2, 4944)
   \<and> free big2 4944 = big3 \<and> realloc big3 4720 16 = Some (big4, 4720)
   \<and> load64 (mem big4) (list_slot big4 0) = 4752
   \<and> get_next (mem big4) 4752 = 4936
   \<and> NEXTRAW (mem big4) 4752 = 4936
   \<and> adjacent_free_pair (mem big4) 4752"
  using run_big1 run_big2 run_big3 run_big4
  by (simp add: big4_def adjacent_free_pair_def coalescable_def macro_defs load64_wmem wlookup_def)

text \<open>
  What follows is the frame argument for \<^verbatim>\<open>free\<close>. Words are read and written at
  8-aligned addresses; a store at one aligned address leaves the word at every other
  aligned address as it was.
\<close>

lemma aligned8_iff_dvd: "aligned8 a \<longleftrightarrow> 2 ^ 3 dvd a"
proof -
  have "take_bit 3 a = 0 \<longleftrightarrow> 2 ^ 3 dvd a" by (rule take_bit_eq_0_iff)
  moreover have "a AND 7 = take_bit 3 a" unfolding seven_mask by (simp only: take_bit_eq_mask)
  ultimately show ?thesis by (simp only: aligned8_def)
qed

lemma aligned8_add: "aligned8 a \<Longrightarrow> aligned8 c \<Longrightarrow> aligned8 (a + c)"
  unfolding aligned8_iff_dvd by (rule dvd_add)

lemma aligned8_diff: "aligned8 a \<Longrightarrow> aligned8 c \<Longrightarrow> aligned8 (a - c)"
  unfolding aligned8_iff_dvd by (rule dvd_diff)

lemma aligned8_mult: "aligned8 (8 * x)"
  unfolding aligned8_iff_dvd by simp

lemma aligned8_consts: "aligned8 8" "aligned8 16" "aligned8 0"
  by (simp_all add: aligned8_def)

lemma and_not_and: "(x AND NOT w) AND w = (0 :: addr)"
  by (rule bit_eqI) (simp add: bit_and_iff bit_not_iff)

lemma aligned8_masked: "aligned8 (x AND NOT 7)"
  unfolding aligned8_def by (rule and_not_and)

lemma aligned8_SIZE: "aligned8 (SIZE m b)"
  unfolding SIZE_def by (rule aligned8_masked)

lemma load64_store64_aligned:
  assumes "aligned8 a" "aligned8 c"
  shows "load64 (store64 m a v) c = (if a = c then v else load64 m c)"
proof (cases "a = c")
  case True
  then show ?thesis by (simp add: load64_store64_same)
next
  case False
  have c: "c AND NOT 7 = c" using split_low[of c] assms(2) by (simp add: aligned8_def)
  have a: "a AND NOT 7 = a" using split_low[of a] assms(1) by (simp add: aligned8_def)
  have "\<not> c - a < 8" using near_iff_same_word[of a c] assms(1) c False by (auto simp: aligned8_def)
  moreover have "\<not> a - c < 8" using near_iff_same_word[of c a] assms(2) a False by (auto simp: aligned8_def)
  ultimately show ?thesis using False by (simp add: load64_store64_other linorder_not_less)
qed

lemma size_after_markalloc: "((h AND NOT 2) OR 1) AND NOT 7 = (h :: 64 word) AND NOT 7"
proof -
  have "(1 :: 64 word) AND NOT 7 = 0" by simp
  moreover have "(h AND NOT 2) AND NOT 7 = h AND NOT 7"
  proof -
    have "NOT (2 :: 64 word) AND NOT 7 = NOT 7" by simp
    then show ?thesis by (metis and.assoc)
  qed
  ultimately show ?thesis by (simp add: bit.conj_disj_distrib2)
qed

lemma size_after_markfree: "((h AND NOT 1) AND NOT 2) AND NOT 7 = (h :: 64 word) AND NOT 7"
proof -
  have "NOT (1 :: 64 word) AND (NOT 2 AND NOT 7) = NOT 7" by simp
  then show ?thesis by (metis and.assoc)
qed

lemma flags_after_markfree: "((h AND NOT 1) AND NOT 2) AND 3 = (0 :: 64 word)"
proof -
  have "NOT (1 :: 64 word) AND (NOT 2 AND 3) = 0" by simp
  then show ?thesis by (metis and.assoc and_zero_eq)
qed

lemma size_after_setsize: "aligned8 s \<Longrightarrow> ((h AND 7) OR s) AND NOT 7 = (s :: 64 word)"
proof -
  assume "aligned8 s"
  then have "s AND NOT 7 = s" using split_low[of s] by (simp add: aligned8_def)
  moreover have "(h AND 7) AND NOT 7 = 0" by (metis and.assoc bit.conj_cancel_right and_zero_eq)
  ultimately show ?thesis by (simp add: bit.conj_disj_distrib2)
qed


lemma fli_range: "8 \<le> s \<Longrightarrow> 0 \<le> find_list_index s \<and> find_list_index s \<le> LISTCOUNT - 1"
proof (cases "s < 512")
  case True
  assume "8 \<le> s"
  then have "8 \<le> unat s" by (simp add: word_le_nat_alt)
  moreover have "unat s < 512" using True by (simp add: word_less_nat_alt)
  ultimately have "1 \<le> unat s div 8" "unat s div 8 \<le> 75" by simp_all
  then show ?thesis using fli_small[OF True \<open>8 \<le> s\<close>] by (simp add: LISTCOUNT_def)
next
  case False
  then have "512 \<le> s" by (simp add: linorder_not_less)
  then show ?thesis by (simp add: fli_large LISTCOUNT_def)
qed

lemma slot_in_cells:
  "0 \<le> i \<Longrightarrow> i \<le> LISTCOUNT - 1 \<Longrightarrow> list_slot st i \<in> set (node_cells st F)"
  by (simp add: node_cells_def)

lemma size_slot_in_cells: "8 \<le> s \<Longrightarrow> list_slot st (find_list_index s) \<in> set (node_cells st F)"
  using fli_range[of s] by (simp add: slot_in_cells)

lemma slot0_in_cells: "list_slot st 0 \<in> set (node_cells st F)"
  by (rule slot_in_cells) (simp_all add: LISTCOUNT_def)

lemma node_in_cells:
  "y \<in> set F \<Longrightarrow> y + 8 \<in> set (node_cells st F)"
  "y \<in> set F \<Longrightarrow> y + 16 \<in> set (node_cells st F)"
  by (auto simp: node_cells_def)

lemma node_cells_link: "c \<in> set (node_cells st F) \<Longrightarrow> c \<in> set (link_cells st F)"
  by (simp add: link_cells_def)

lemma cell_aligned:
  assumes "aligned8 (free_lists st)" "list_all aligned8 F" "c \<in> set (link_cells st F)"
  shows "aligned8 c"
  using assms
  by (auto simp: link_cells_def node_cells_def list_slot_def list_all_iff
      intro!: aligned8_add aligned8_mult aligned8_consts)

lemma closed_value:
  "links_closed st F m \<Longrightarrow> c \<in> set (node_cells st F) \<Longrightarrow> load64 m c \<in> set (0 # F)"
  by (simp add: links_closed_def list_all_iff)

lemma link_store:
  assumes "aligned8 (free_lists st)" "list_all aligned8 F"
    and "links_closed st F m" "c \<in> set (link_cells st F)" "v \<in> set (0 # F)"
  shows "links_closed st F (store64 m c v)"
    and "aligned8 a \<Longrightarrow> a \<notin> set (link_cells st F) \<Longrightarrow> load64 (store64 m c v) a = load64 m a"
proof -
  have ac: "aligned8 c" using assms(1,2,4) by (rule cell_aligned)
  show "links_closed st F (store64 m c v)"
    unfolding links_closed_def list_all_iff
  proof
    fix k assume k: "k \<in> set (node_cells st F)"
    then have "aligned8 k" using assms(1,2) cell_aligned node_cells_link by blast
    then have "load64 (store64 m c v) k = (if c = k then v else load64 m k)"
      using ac by (rule load64_store64_aligned[rotated])
    then show "load64 (store64 m c v) k \<in> set (0 # F)"
      using assms(5) closed_value[OF assms(3) k] by simp
  qed
  show "load64 (store64 m c v) a = load64 m a" if "aligned8 a" "a \<notin> set (link_cells st F)"
    using load64_store64_aligned[OF ac that(1)] that(2) assms(4) by auto
qed

lemma tag_store:
  assumes "aligned8 (free_lists st)" "list_all aligned8 F"
    and "links_closed st F m" "aligned8 t" "t \<notin> set (link_cells st F)"
  shows "links_closed st F (store64 m t v)"
  unfolding links_closed_def list_all_iff
proof
  fix k assume k: "k \<in> set (node_cells st F)"
  then have "aligned8 k" using assms(1,2) cell_aligned node_cells_link by blast
  then have "load64 (store64 m t v) k = (if t = k then v else load64 m k)"
    using assms(4) by (rule load64_store64_aligned[rotated])
  moreover have "t \<noteq> k" using k assms(5) node_cells_link by blast
  ultimately show "load64 (store64 m t v) k \<in> set (0 # F)"
    using closed_value[OF assms(3) k] by simp
qed


lemma remove_spec:
  assumes al: "aligned8 (free_lists st)" "list_all aligned8 F"
    and cl: "links_closed st F (mem st)"
    and x: "x \<in> set F" "8 \<le> SIZE (mem st) x"
    and d: "x \<notin> set (link_cells st F)" "x + SIZE (mem st) x - 8 \<notin> set (link_cells st F)"
      "x + SIZE (mem st) x - 8 \<noteq> x"
  shows "links_closed st F (mem (free_list_remove st x))"
    and "load64 (mem (free_list_remove st x)) x = (load64 (mem st) x AND NOT 2) OR 1"
    and "load64 (mem (free_list_remove st x)) (x + SIZE (mem st) x - 8)
          = (load64 (mem st) x AND NOT 2) OR 1"
    and "\<And>a. aligned8 a \<Longrightarrow> a \<notin> set (link_cells st F) \<Longrightarrow> a \<noteq> x
          \<Longrightarrow> a \<noteq> x + SIZE (mem st) x - 8
          \<Longrightarrow> load64 (mem (free_list_remove st x)) a = load64 (mem st) a"
proof -
  let ?C = "link_cells st F"
  let ?m = "mem st"
  let ?ok = "\<lambda>m'. links_closed st F m' \<and> (\<forall>a. aligned8 a \<longrightarrow> a \<notin> set ?C \<longrightarrow> load64 m' a = load64 ?m a)"
  have ok0: "?ok ?m" using cl by simp
  have step: "?ok (store64 m' c v)" if "?ok m'" "c \<in> set ?C" "v \<in> set (0 # F)" for m' c v
    using link_store[OF al, of m' c v] that by auto
  have lnk: "get_next m' x \<in> set (0 # F) \<and> get_prev m' x \<in> set (0 # F)" if "?ok m'" for m'
    using that closed_value[of st F m'] node_in_cells[OF x(1), of st]
    by (simp add: get_next_def get_prev_def)
  have c8: "y + 8 \<in> set ?C" if "y \<in> set (0 # F)" for y
    using that node_in_cells(1)[of y F st] by (auto simp: link_cells_def)
  have c16: "y + 16 \<in> set ?C" if "y \<in> set (0 # F)" "y \<noteq> 0" for y
    using that node_in_cells(2)[of y F st] by (auto simp: link_cells_def)
  have sh: "list_slot st (find_list_index (SIZE ?m x)) \<in> set (node_cells st F)"
    using x(2) by (rule size_slot_in_cells)
  have uh: "list_slot st 0 \<in> set (node_cells st F)" by (rule slot0_in_cells)
  have hd: "?ok (if load64 ma h \<noteq> 0 then set_prev ma (load64 ma h) 0 else ma)"
    if "?ok ma" "h \<in> set (node_cells st F)" for ma h
  proof (cases "load64 ma h \<noteq> 0")
    case True
    have "load64 ma h \<in> set (0 # F)" using that closed_value by blast
    then have "load64 ma h + 16 \<in> set ?C" using True by (rule c16)
    then show ?thesis using True that(1) step by (simp add: set_prev_def)
  next
    case False
    then show ?thesis using that(1) by simp
  qed
  define m1 where "m1 =
     (if x = load64 ?m (list_slot st (find_list_index (SIZE ?m x))) \<or> x = load64 ?m (list_slot st 0) then
        let head = (if x = load64 ?m (list_slot st (find_list_index (SIZE ?m x)))
                    then list_slot st (find_list_index (SIZE ?m x)) else list_slot st 0);
            ma = store64 ?m head (get_next ?m x)
        in if load64 ma head \<noteq> 0 then set_prev ma (load64 ma head) 0 else ma
      else set_next ?m (get_prev ?m x) (get_next ?m x))"
  define m2 where "m2 = (if get_next m1 x \<noteq> 0 then set_prev m1 (get_next m1 x) (get_prev m1 x) else m1)"
  have ok1: "?ok m1"
  proof (cases "x = load64 ?m (list_slot st (find_list_index (SIZE ?m x))) \<or> x = load64 ?m (list_slot st 0)")
    case True
    define head where "head = (if x = load64 ?m (list_slot st (find_list_index (SIZE ?m x)))
                    then list_slot st (find_list_index (SIZE ?m x)) else list_slot st 0)"
    have h: "head \<in> set (node_cells st F)" using sh uh by (simp add: head_def)
    have "?ok (store64 ?m head (get_next ?m x))"
      using step[OF ok0 node_cells_link[OF h]] lnk[OF ok0] by blast
    then have "?ok (if load64 (store64 ?m head (get_next ?m x)) head \<noteq> 0
        then set_prev (store64 ?m head (get_next ?m x)) (load64 (store64 ?m head (get_next ?m x)) head) 0
        else store64 ?m head (get_next ?m x))"
      using h by (rule hd)
    then show ?thesis using True unfolding m1_def head_def Let_def by simp
  next
    case False
    have "get_prev ?m x + 8 \<in> set ?C" using lnk[OF ok0] c8 by blast
    then have "?ok (store64 ?m (get_prev ?m x + 8) (get_next ?m x))"
      using step[OF ok0] lnk[OF ok0] by blast
    then show ?thesis using False unfolding m1_def by (simp add: set_next_def)
  qed
  have ok2: "?ok m2"
  proof (cases "get_next m1 x \<noteq> 0")
    case True
    have "get_next m1 x + 16 \<in> set ?C" using lnk[OF ok1] True c16 by blast
    then have "?ok (store64 m1 (get_next m1 x + 16) (get_prev m1 x))"
      using step[OF ok1] lnk[OF ok1] by blast
    then show ?thesis using True unfolding m2_def by (simp add: set_prev_def)
  next
    case False
    then show ?thesis using ok1 unfolding m2_def by simp
  qed
  have ax: "aligned8 x" using al x(1) by (simp add: list_all_iff)
  let ?f = "x + SIZE ?m x - 8"
  have af: "aligned8 ?f"
    using ax by (intro aligned8_diff aligned8_add aligned8_SIZE aligned8_consts)
  have hx: "load64 m2 x = load64 ?m x" using ok2 ax d(1) by blast
  let ?v = "(load64 ?m x AND NOT 2) OR 1"
  have r: "mem (free_list_remove st x) = store64 (store64 m2 x ?v) ?f ?v"
  proof -
    have a: "MARKALLOC m2 x = store64 m2 x ?v" by (simp add: MARKALLOC_def hx)
    have b: "load64 (store64 m2 x ?v) x = ?v" by (rule load64_store64_same)
    have "SIZE (store64 m2 x ?v) x = SIZE ?m x"
      unfolding SIZE_def b by (rule size_after_markalloc)
    then have "HDRTOFTR (store64 m2 x ?v) x = store64 (store64 m2 x ?v) ?f ?v"
      by (simp add: HDRTOFTR_def GETFTR_def WSIZE_def load64_store64_same)
    then show ?thesis
      unfolding free_list_remove_def Let_def m2_def[symmetric, unfolded m1_def Let_def] a
      by (simp add: m2_def m1_def Let_def a)
  qed
  have cl2: "links_closed st F m2" using ok2 by blast
  show "links_closed st F (mem (free_list_remove st x))"
    unfolding r using al cl2 ax af d(1,2) by (intro tag_store) auto
  show "load64 (mem (free_list_remove st x)) x = ?v"
    unfolding r using ax af d(3) by (simp add: load64_store64_aligned)
  show "load64 (mem (free_list_remove st x)) ?f = ?v"
    unfolding r by (rule load64_store64_same)
  show "load64 (mem (free_list_remove st x)) a = load64 ?m a"
    if "aligned8 a" "a \<notin> set ?C" "a \<noteq> x" "a \<noteq> ?f" for a
    unfolding r using that ax af ok2 by (simp add: load64_store64_aligned)
qed

text \<open>
  \<^verbatim>\<open>SETSIZE\<close> writes the header and the footer of the resized block;
  \<^verbatim>\<open>free_list_insert\<close> on the unsorted list writes the header and footer of the new
  node, its two link words, the head of the list and the \<^verbatim>\<open>prev\<close> word of the old
  head.
\<close>

lemma slot_same_table: "free_lists st1 = free_lists st \<Longrightarrow> list_slot st1 = list_slot st"
  by (simp add: fun_eq_iff list_slot_def)

lemma cells_same_table:
  assumes "free_lists st1 = free_lists st"
  shows "node_cells st1 F = node_cells st F"
    and "link_cells st1 F = link_cells st F"
    and "links_closed st1 F = links_closed st F"
  unfolding node_cells_def link_cells_def links_closed_def fun_eq_iff slot_same_table[OF assms]
  by simp_all

lemma setsize_spec:
  assumes "aligned8 L" "aligned8 s" "L + s - 8 \<noteq> L"
  shows "load64 (SETSIZE m L s) L = (load64 m L AND 7) OR s"
    and "load64 (SETSIZE m L s) (L + s - 8) = (load64 m L AND 7) OR s"
    and "\<And>a. aligned8 a \<Longrightarrow> a \<noteq> L \<Longrightarrow> a \<noteq> L + s - 8 \<Longrightarrow> load64 (SETSIZE m L s) a = load64 m a"
    and "aligned8 (free_lists st) \<Longrightarrow> list_all aligned8 F \<Longrightarrow> links_closed st F m
          \<Longrightarrow> L \<notin> set (link_cells st F) \<Longrightarrow> L + s - 8 \<notin> set (link_cells st F)
          \<Longrightarrow> links_closed st F (SETSIZE m L s)"
proof -
  let ?v = "(load64 m L AND 7) OR s"
  let ?f = "L + s - 8"
  have af: "aligned8 ?f"
    using assms(1,2) by (intro aligned8_diff aligned8_add aligned8_consts)
  have sz: "SIZE (store64 m L ?v) L = s"
    unfolding SIZE_def load64_store64_same using assms(2) by (rule size_after_setsize)
  have r: "SETSIZE m L s = store64 (store64 m L ?v) ?f ?v"
    by (simp add: SETSIZE_def SETSIZEHDR_def HDRTOFTR_def GETFTR_def sz WSIZE_def load64_store64_same)
  show "load64 (SETSIZE m L s) L = ?v"
    unfolding r using assms af by (simp add: load64_store64_aligned)
  show "load64 (SETSIZE m L s) ?f = ?v"
    unfolding r by (rule load64_store64_same)
  show "load64 (SETSIZE m L s) a = load64 m a" if "aligned8 a" "a \<noteq> L" "a \<noteq> ?f" for a
    unfolding r using that assms(1) af by (simp add: load64_store64_aligned)
  show "links_closed st F (SETSIZE m L s)"
    if "aligned8 (free_lists st)" "list_all aligned8 F" "links_closed st F m"
      "L \<notin> set (link_cells st F)" "?f \<notin> set (link_cells st F)"
    unfolding r using that assms(1) af by (intro tag_store) auto
qed

lemma insert_spec:
  assumes al: "aligned8 (free_lists st)" "list_all aligned8 F"
    and cl: "links_closed st F (mem st)"
    and L: "aligned8 L" "L \<notin> set (link_cells st F)"
      "L + SIZE (mem st) L - 8 \<notin> set (link_cells st F)" "L + SIZE (mem st) L - 8 \<noteq> L"
      "list_slot st 0 \<noteq> L + 8" "list_slot st 0 \<noteq> L + 16"
  shows "load64 (mem (free_list_insert st L True)) (list_slot st 0) = L"
    and "load64 (mem (free_list_insert st L True)) L = (load64 (mem st) L AND NOT 1) AND NOT 2"
    and "\<And>a. aligned8 a \<Longrightarrow> a \<notin> set (link_cells st F) \<Longrightarrow> a \<noteq> L
          \<Longrightarrow> a \<noteq> L + SIZE (mem st) L - 8 \<Longrightarrow> a \<noteq> L + 8 \<Longrightarrow> a \<noteq> L + 16
          \<Longrightarrow> load64 (mem (free_list_insert st L True)) a = load64 (mem st) a"
proof -
  let ?m = "mem st"
  let ?C = "link_cells st F"
  let ?v = "(load64 ?m L AND NOT 1) AND NOT 2"
  let ?f = "L + SIZE ?m L - 8"
  let ?h = "list_slot st 0"
  define m3 where "m3 = store64 (store64 (store64 ?m L (load64 ?m L AND NOT 1)) L ?v) ?f ?v"
  have af: "aligned8 ?f"
    using L(1) by (intro aligned8_diff aligned8_add aligned8_SIZE aligned8_consts)
  have a8: "aligned8 (L + 8)" "aligned8 (L + 16)"
    using L(1) by (auto intro: aligned8_add aligned8_consts)
  have hc: "?h \<in> set ?C" using slot0_in_cells node_cells_link by blast
  have ah: "aligned8 ?h" using al hc by (rule cell_aligned)
  have hne: "?h \<noteq> L" "?h \<noteq> ?f" using hc L(2,3) by auto
  have sz: "SIZE (store64 (store64 ?m L (load64 ?m L AND NOT 1)) L ?v) L = SIZE ?m L"
    unfolding SIZE_def load64_store64_same by (rule size_after_markfree)
  have m3: "HDRTOFTR (MARKUNQUICK (MARKFREE ?m L) L) L = m3"
    unfolding MARKFREE_def MARKUNQUICK_def HDRTOFTR_def GETFTR_def load64_store64_same sz
      m3_def WSIZE_def by (rule refl)
  have m3L: "load64 m3 L = ?v"
    unfolding m3_def using L(1,4) af by (simp add: load64_store64_aligned)
  have m3o: "load64 m3 a = load64 ?m a" if "aligned8 a" "a \<noteq> L" "a \<noteq> ?f" for a
    unfolding m3_def using that L(1) af by (simp add: load64_store64_aligned)
  have ohd: "load64 m3 ?h = load64 ?m ?h" using ah hne by (rule m3o)
  define oh where "oh = load64 ?m ?h"
  have oF: "oh \<in> set (0 # F)" unfolding oh_def using cl slot0_in_cells by (rule closed_value)
  show "load64 (mem (free_list_insert st L True)) ?h = L"
    "load64 (mem (free_list_insert st L True)) L = ?v"
    "\<And>a. aligned8 a \<Longrightarrow> a \<notin> set (link_cells st F) \<Longrightarrow> a \<noteq> L
          \<Longrightarrow> a \<noteq> ?f \<Longrightarrow> a \<noteq> L + 8 \<Longrightarrow> a \<noteq> L + 16
          \<Longrightarrow> load64 (mem (free_list_insert st L True)) a = load64 ?m a"
  proof -
    show "load64 (mem (free_list_insert st L True)) ?h = L"
    proof (cases "oh = 0")
      case True
      then have r: "mem (free_list_insert st L True)
                = store64 (store64 (store64 m3 ?h L) (L + 8) 0) (L + 16) 0"
        using ohd by (simp add: free_list_insert_def Let_def m3 set_next_def set_prev_def oh_def)
      show ?thesis unfolding r using ah a8 L(5,6) by (simp add: load64_store64_aligned)
    next
      case False
      then have o16: "oh + 16 \<in> set ?C" using oF node_in_cells(2)[of oh F st] node_cells_link by auto
      have ao: "aligned8 (oh + 16)" using al o16 by (rule cell_aligned)
      have l4: "load64 (store64 m3 (L + 8) oh) ?h = oh"
        using ah a8 L(5) ohd by (simp add: load64_store64_aligned oh_def)
      have r: "mem (free_list_insert st L True)
                = store64 (store64 (store64 (store64 m3 (L + 8) oh) (oh + 16) L) ?h L) (L + 16) 0"
        using False ohd l4 by (simp add: free_list_insert_def Let_def m3 set_next_def set_prev_def oh_def)
      show ?thesis unfolding r using ah a8 L(5,6) by (simp add: load64_store64_aligned)
    qed
    show "load64 (mem (free_list_insert st L True)) L = ?v"
    proof (cases "oh = 0")
      case True
      then have r: "mem (free_list_insert st L True)
                = store64 (store64 (store64 m3 ?h L) (L + 8) 0) (L + 16) 0"
        using ohd by (simp add: free_list_insert_def Let_def m3 set_next_def set_prev_def oh_def)
      show ?thesis unfolding r using ah a8 L(1) hne m3L by (simp add: load64_store64_aligned)
    next
      case False
      then have o16: "oh + 16 \<in> set ?C" using oF node_in_cells(2)[of oh F st] node_cells_link by auto
      have ao: "aligned8 (oh + 16)" using al o16 by (rule cell_aligned)
      have one: "oh + 16 \<noteq> L" using o16 L(2) by auto
      have l4: "load64 (store64 m3 (L + 8) oh) ?h = oh"
        using ah a8 L(5) ohd by (simp add: load64_store64_aligned oh_def)
      have r: "mem (free_list_insert st L True)
                = store64 (store64 (store64 (store64 m3 (L + 8) oh) (oh + 16) L) ?h L) (L + 16) 0"
        using False ohd l4 by (simp add: free_list_insert_def Let_def m3 set_next_def set_prev_def oh_def)
      show ?thesis unfolding r using ah a8 ao one L(1) hne m3L by (simp add: load64_store64_aligned)
    qed
    show "load64 (mem (free_list_insert st L True)) a = load64 ?m a"
      if a: "aligned8 a" "a \<notin> set (link_cells st F)" "a \<noteq> L" "a \<noteq> ?f" "a \<noteq> L + 8" "a \<noteq> L + 16" for a
    proof (cases "oh = 0")
      case True
      then have r: "mem (free_list_insert st L True)
                = store64 (store64 (store64 m3 ?h L) (L + 8) 0) (L + 16) 0"
        using ohd by (simp add: free_list_insert_def Let_def m3 set_next_def set_prev_def oh_def)
      have "?h \<noteq> a" using hc a(2) by auto
      then show ?thesis unfolding r using ah a8 a m3o[of a] by (simp add: load64_store64_aligned)
    next
      case False
      then have o16: "oh + 16 \<in> set ?C" using oF node_in_cells(2)[of oh F st] node_cells_link by auto
      have ao: "aligned8 (oh + 16)" using al o16 by (rule cell_aligned)
      have one: "oh + 16 \<noteq> a" using o16 a(2) by auto
      have l4: "load64 (store64 m3 (L + 8) oh) ?h = oh"
        using ah a8 L(5) ohd by (simp add: load64_store64_aligned oh_def)
      have r: "mem (free_list_insert st L True)
                = store64 (store64 (store64 (store64 m3 (L + 8) oh) (oh + 16) L) ?h L) (L + 16) 0"
        using False ohd l4 by (simp add: free_list_insert_def Let_def m3 set_next_def set_prev_def oh_def)
      have "?h \<noteq> a" using hc a(2) by auto
      then show ?thesis unfolding r using ah a8 ao one a m3o[of a] by (simp add: load64_store64_aligned)
    qed
  qed
qed

lemma site_disjoint:
  assumes "distinct (T @ link_cells st F)"
  shows "t \<in> set T \<Longrightarrow> t \<notin> set (link_cells st F)"
    and "y \<in> set F \<Longrightarrow> list_slot st 0 \<noteq> y + 8 \<and> list_slot st 0 \<noteq> y + 16"
proof -
  have da: "distinct T \<and> distinct (link_cells st F) \<and> set T \<inter> set (link_cells st F) = {}"
    using assms by (simp only: distinct_append)
  show "t \<notin> set (link_cells st F)" if "t \<in> set T" using da that by blast
  have "distinct (node_cells st F)" using da by (simp only: link_cells_def distinct.simps)
  then have d: "set (map (list_slot st) [0 .. LISTCOUNT - 1])
       \<inter> set (concat (map (\<lambda>y. [y + 8, y + 16]) F)) = {}"
    by (simp only: node_cells_def distinct_append)
  have "(0 :: int) \<in> set [0 .. LISTCOUNT - 1]" unfolding set_upto LISTCOUNT_def by simp
  then have s: "list_slot st 0 \<in> set (map (list_slot st) [0 .. LISTCOUNT - 1])"
    by (simp only: set_map image_eqI)
  show "list_slot st 0 \<noteq> y + 8 \<and> list_slot st 0 \<noteq> y + 16" if "y \<in> set F"
  proof -
    have "y + 8 \<in> set (concat (map (\<lambda>y. [y + 8, y + 16]) F))"
      "y + 16 \<in> set (concat (map (\<lambda>y. [y + 8, y + 16]) F))" using that by auto
    note m = this
    have n: "list_slot st 0 \<notin> set (concat (map (\<lambda>y. [y + 8, y + 16]) F))"
      by (rule d[unfolded disjoint_iff, rule_format, OF s])
    show ?thesis
    proof (intro conjI notI)
      assume e: "list_slot st 0 = y + 8"
      from n[unfolded e] m(1) show False by (rule notE)
    next
      assume e: "list_slot st 0 = y + 16"
      from n[unfolded e] m(2) show False by (rule notE)
    qed
  qed
qed

lemma minblock_unat: "MINBLOCK \<le> s \<Longrightarrow> 32 \<le> unat s"
  by (simp add: MINBLOCK_def WSIZE_def word_le_nat_alt)

lemma minblock_ge8: "MINBLOCK \<le> s \<Longrightarrow> 8 \<le> s"
  using minblock_unat[of s] by (simp add: word_le_nat_alt)

lemma site_facts:
  assumes ok: "free_site_ok st F b"
  shows "aligned8 (free_lists st)" "list_all aligned8 F" "aligned8 b" "links_closed st F (mem st)"
    and "distinct (([b - 8, b, b + 8, b + 16, NEXTRAW (mem st) b - 8, NEXTRAW (mem st) b]
           @ (if PREVUNCOAL (mem st) b = 0
              then [PREVRAW (mem st) b - 8, PREVRAW (mem st) b] else [])
           @ (if NEXTUNCOAL (mem st) b = 0
              then [NEXTRAW (mem st) b + SIZE (mem st) (NEXTRAW (mem st) b) - 8,
                    NEXTRAW (mem st) b + SIZE (mem st) (NEXTRAW (mem st) b)] else []))
           @ link_cells st F)"
    and "ISALLOC (mem st) b \<noteq> 0"
    and "PREVUNCOAL (mem st) b = 0 \<Longrightarrow>
           PREVRAW (mem st) b \<in> set F \<and> MINBLOCK \<le> SIZE (mem st) (b - 8)
           \<and> load64 (mem st) (PREVRAW (mem st) b) = load64 (mem st) (b - 8)
           \<and> PREVUNCOAL (mem st) (PREVRAW (mem st) b) \<noteq> 0"
    and "NEXTUNCOAL (mem st) b = 0 \<Longrightarrow>
           NEXTRAW (mem st) b \<in> set F \<and> MINBLOCK \<le> SIZE (mem st) (NEXTRAW (mem st) b)
           \<and> NEXTUNCOAL (mem st) (NEXTRAW (mem st) b) \<noteq> 0"
    and "(if PREVUNCOAL (mem st) b = 0 then unat (SIZE (mem st) (b - 8)) else 0)
           + unat (SIZE (mem st) b)
           + (if NEXTUNCOAL (mem st) b = 0 then unat (SIZE (mem st) (NEXTRAW (mem st) b)) else 0)
         < 2 ^ 64"
  using ok unfolding free_site_ok_def Let_def PREVFTR_def WSIZE_def
  by simp_all

text \<open>
  \<^verbatim>\<open>free\<close> in four stages: the previous block is taken off its list when it is
  coalescable (\<open>st1\<close>), then the next block (\<open>st2\<close>), then the merged size is written
  (\<open>st3\<close>), then the merged block goes on the unsorted list (\<open>st4\<close>).
\<close>

lemma markalloc_size: "SIZE m x = s \<Longrightarrow> ((load64 m x AND NOT 2) OR 1) AND NOT 7 = s"
  unfolding SIZE_def by (simp only: size_after_markalloc)

lemma free_spec:
  assumes ok: "free_site_ok st F b" and nz: "ptr \<noteq> 0" and ub: "USERTOBLOCK ptr = b"
  shows "load64 (mem (free st ptr)) (list_slot st 0) = merged_start (mem st) b"
    and "coalescable (mem (free st ptr)) (merged_start (mem st) b)"
    and "SIZE (mem (free st ptr)) (merged_start (mem st) b) = merged_size (mem st) b"
    and "PREVUNCOAL (mem (free st ptr)) (merged_start (mem st) b) \<noteq> 0"
    and "NEXTUNCOAL (mem (free st ptr)) (merged_start (mem st) b) \<noteq> 0"
proof -
  define m where "m = mem st"
  define P where "P = PREVRAW m b"
  define N where "N = NEXTRAW m b"
  define sb where "sb = SIZE m b"
  define sp where "sp = SIZE m (b - 8)"
  define sn where "sn = SIZE m N"
  define pf where "pf \<longleftrightarrow> PREVUNCOAL m b = 0"
  define nf where "nf \<longleftrightarrow> NEXTUNCOAL m b = 0"
  define T where "T = [b - 8, b, b + 8, b + 16, N - 8, N]
           @ (if pf then [P - 8, P] else [])
           @ (if nf then [N + sn - 8, N + sn] else [])"
  define C where "C = link_cells st F"
  note sf = site_facts[OF ok, folded m_def, folded P_def N_def sb_def sp_def, folded sn_def pf_def nf_def,
      folded T_def C_def]
  have al: "aligned8 (free_lists st)" "list_all aligned8 F" by (rule sf)+
  have ab: "aligned8 b" by (rule sf)
  have cl: "links_closed st F m" by (rule sf)
  have dT: "distinct (T @ C)" by (rule sf)
  have ia: "ISALLOC m b \<noteq> 0" by (rule sf)
  have pfa: "P \<in> set F" "MINBLOCK \<le> sp" "load64 m P = load64 m (b - 8)" "PREVUNCOAL m P \<noteq> 0" if pf
    using sf(7)[OF that] by blast+
  have nfa: "N \<in> set F" "MINBLOCK \<le> sn" "NEXTUNCOAL m N \<noteq> 0" if nf
    using sf(8)[OF that] by blast+
  have nw: "(if pf then unat sp else 0) + unat sb + (if nf then unat sn else 0) < 2 ^ 64" by (rule sf)
  let ?C = "link_cells st F"
  have dTT: "distinct T" using dT by simp
  have tin: "t \<notin> set ?C" if "t \<in> set T" for t
    using site_disjoint(1)[OF dT[unfolded C_def] that] .
  have Pd: "P = b - sp" by (simp add: P_def PREVRAW_def sp_def PREVFTR_def WSIZE_def)
  have Nd: "N = b + sb" by (simp add: N_def NEXTRAW_def sb_def)
  have asz: "aligned8 sb" "aligned8 sp" "aligned8 sn"
    by (simp_all add: sb_def sp_def sn_def aligned8_SIZE)
  have aP: "aligned8 P" unfolding Pd using ab asz by (intro aligned8_diff)
  have aN: "aligned8 N" unfolding Nd using ab asz by (intro aligned8_add)
  have mT: "b - 8 \<in> set T" "b \<in> set T" "b + 8 \<in> set T" "b + 16 \<in> set T" "N - 8 \<in> set T" "N \<in> set T"
    by (simp_all add: T_def)
  have mTp: "P - 8 \<in> set T" "P \<in> set T" if pf using that by (simp_all add: T_def)
  have mTn: "N + sn - 8 \<in> set T" "N + sn \<in> set T" if nf using that by (simp_all add: T_def)
  define fb where "fb = b - 8"
  define b8 where "b8 = b + 8"
  define b16 where "b16 = b + 16"
  define fN where "fN = N - 8"
  define fP where "fP = P - 8"
  define fn where "fn = N + sn - 8"
  define nn where "nn = N + sn"
  have dA: "distinct ([fb, b, b8, b16, fN, N] @ (if pf then [fP, P] else [])
              @ (if nf then [fn, nn] else []))"
    using dTT unfolding T_def fb_def b8_def b16_def fN_def fP_def fn_def nn_def .
  have Ip: "fb \<noteq> P" "N \<noteq> P" "b \<noteq> P" "fP \<noteq> P" "fP \<noteq> fb" "fN \<noteq> P" "fP \<noteq> fN" "fP \<noteq> N"
      "fP \<noteq> b" "fP \<noteq> b8" "fP \<noteq> b16" if pf
    using dA that by auto
  have In: "fn \<noteq> N" "b \<noteq> N" "b \<noteq> fn" "nn \<noteq> N" "nn \<noteq> fn" "nn \<noteq> b" "fb \<noteq> fn" "nn \<noteq> b8" "nn \<noteq> b16"
      "fb \<noteq> nn" if nf
    using dA that by auto
  have Ipn: "fn \<noteq> P" "nn \<noteq> P" "nn \<noteq> fb" "fP \<noteq> fn" "fP \<noteq> nn" if pf nf
    using dA that by auto
  have I0: "fN \<noteq> b" "N \<noteq> b" "N \<noteq> fN" "N \<noteq> b8" "N \<noteq> b16" "fb \<noteq> fN" "fb \<noteq> N" "N \<noteq> fb" "b \<noteq> fb"
      "fb \<noteq> b8" "fb \<noteq> b16"
    using dA by auto
  note Ip = Ip[unfolded fb_def b8_def b16_def fN_def fP_def fn_def nn_def]
  note In = In[unfolded fb_def b8_def b16_def fN_def fP_def fn_def nn_def]
  note Ipn = Ipn[unfolded fb_def b8_def b16_def fN_def fP_def fn_def nn_def]
  note I0 = I0[unfolded fb_def b8_def b16_def fN_def fP_def fn_def nn_def]
  have szP: "SIZE m P = sp" if pf using pfa(3)[OF that] by (simp add: SIZE_def sp_def)
  define st1 where "st1 = (if pf then free_list_remove st P else st)"
  have fl1: "free_lists st1 = free_lists st" by (simp add: st1_def)
  have r1: "links_closed st F (mem st1)
      \<and> load64 (mem st1) P = (load64 m P AND NOT 2) OR 1
      \<and> (\<forall>a. aligned8 a \<longrightarrow> a \<notin> set ?C \<longrightarrow> a \<noteq> P \<longrightarrow> a \<noteq> b - 8 \<longrightarrow> load64 (mem st1) a = load64 m a)"
    if pf
  proof -
    have e: "P + SIZE (mem st) P - 8 = b - 8" using szP[OF that] by (simp add: m_def[symmetric] Pd)
    have x: "P \<in> set F" "8 \<le> SIZE (mem st) P"
      using pfa(1,2)[OF that] szP[OF that] minblock_ge8 by (simp_all add: m_def)
    have d: "P \<notin> set ?C" "P + SIZE (mem st) P - 8 \<notin> set ?C" "P + SIZE (mem st) P - 8 \<noteq> P"
      unfolding e using tin mT mTp[OF that] Ip[OF that] by auto
    note rs = remove_spec[OF al cl[unfolded m_def] x d, unfolded e, folded m_def]
    have s: "st1 = free_list_remove st P" using that by (simp add: st1_def)
    show ?thesis unfolding s using rs by blast
  qed
  have cl1: "links_closed st F (mem st1)"
    using r1 cl by (cases pf) (simp_all add: st1_def m_def)
  have fr1: "load64 (mem st1) a = load64 m a"
    if "aligned8 a" "a \<notin> set ?C" "pf \<longrightarrow> a \<noteq> P \<and> a \<noteq> b - 8" for a
    using r1 that by (cases pf) (simp_all add: st1_def m_def)
  have sP1: "SIZE (mem st1) P = sp" if pf
    using r1[OF that] markalloc_size[OF szP[OF that]] by (simp add: SIZE_def)
  have N1: "load64 (mem st1) N = load64 m N"
    using aN tin[OF mT(6)] Ip(2) I0(8) by (intro fr1) auto
  have b1: "load64 (mem st1) b = load64 m b"
    using ab tin[OF mT(2)] Ip(3) I0(9) by (intro fr1) auto
  have szN1: "SIZE (mem st1) N = sn" using N1 by (simp add: SIZE_def sn_def)
  define st2 where "st2 = (if nf then free_list_remove st1 N else st1)"
  have fl2: "free_lists st2 = free_lists st" by (simp add: st2_def fl1)
  note cs1 = cells_same_table[OF fl1]
  have r2: "links_closed st F (mem st2)
      \<and> load64 (mem st2) N = (load64 (mem st1) N AND NOT 2) OR 1
      \<and> (\<forall>a. aligned8 a \<longrightarrow> a \<notin> set ?C \<longrightarrow> a \<noteq> N \<longrightarrow> a \<noteq> N + sn - 8
             \<longrightarrow> load64 (mem st2) a = load64 (mem st1) a)"
    if nf
  proof -
    have al1: "aligned8 (free_lists st1)" using al(1) fl1 by simp
    have c1: "links_closed st1 F (mem st1)" using cl1 by (simp only: cs1)
    have x: "N \<in> set F" "8 \<le> SIZE (mem st1) N"
      using nfa(1,2)[OF that] szN1 minblock_ge8 by simp_all
    have d: "N \<notin> set (link_cells st1 F)" "N + SIZE (mem st1) N - 8 \<notin> set (link_cells st1 F)"
       "N + SIZE (mem st1) N - 8 \<noteq> N"
      unfolding szN1 cs1 using tin mT mTn[OF that] In[OF that] by auto
    note rs = remove_spec[OF al1 al(2) c1 x d, unfolded szN1 cs1]
    have s: "st2 = free_list_remove st1 N" using that by (simp add: st2_def)
    show ?thesis unfolding s using rs by blast
  qed
  have cl2: "links_closed st F (mem st2)"
    using r2 cl1 by (cases nf) (simp_all add: st2_def)
  have fr2: "load64 (mem st2) a = load64 m a"
    if "aligned8 a" "a \<notin> set ?C" "pf \<longrightarrow> a \<noteq> P \<and> a \<noteq> b - 8" "nf \<longrightarrow> a \<noteq> N \<and> a \<noteq> N + sn - 8" for a
  proof -
    have "load64 (mem st2) a = load64 (mem st1) a"
      using r2 that by (cases nf) (simp_all add: st2_def)
    then show ?thesis using fr1[OF that(1,2,3)] by simp
  qed
  have sN2: "SIZE (mem st2) N = sn" if nf
    using r2[OF that] markalloc_size[OF szN1] by (simp add: SIZE_def)
  have b2: "load64 (mem st2) b = load64 m b"
    using ab tin[OF mT(2)] Ip(3) I0(9) In(2,3) by (intro fr2) auto
  define L where "L = (if pf then P else b)"
  define tot where "tot = (if pf then sp else 0) + sb + (if nf then sn else 0)"
  define ftr where "ftr = (if nf then N + sn - 8 else N - 8)"
  define nx where "nx = (if nf then N + sn else N)"
  have fe: "L + tot - 8 = ftr" by (simp add: L_def tot_def ftr_def Pd Nd)
  have ne: "L + tot = nx" by (simp add: L_def tot_def nx_def Pd Nd)
  have atot: "aligned8 tot"
    unfolding tot_def using asz by (auto intro!: aligned8_add aligned8_consts)
  have aL: "aligned8 L" using aP ab by (simp add: L_def)
  have LT: "L \<in> set T" "ftr \<in> set T" "nx \<in> set T"
    using mT mTp mTn by (auto simp: L_def ftr_def nx_def)
  have fL: "ftr \<noteq> L" using Ip In Ipn I0 by (auto simp: L_def ftr_def)
  define st3 where "st3 = (if pf \<or> nf then st2\<lparr>mem := SETSIZE (mem st2) L tot\<rparr> else st2)"
  have fl3: "free_lists st3 = free_lists st" by (simp add: st3_def fl2)
  note ss = setsize_spec[where m = "mem st2", OF aL atot, unfolded fe, OF fL]
  have cl3: "links_closed st F (mem st3)"
    using ss(4)[OF al cl2 tin[OF LT(1)] tin[OF LT(2)]] cl2 by (simp add: st3_def)
  have sz3: "SIZE (mem st3) L = tot"
  proof (cases "pf \<or> nf")
    case True
    then have "load64 (mem st3) L = (load64 (mem st2) L AND 7) OR tot" using ss(1) by (simp add: st3_def)
    then show ?thesis using size_after_setsize[OF atot] by (simp add: SIZE_def)
  next
    case False
    then show ?thesis using b2 by (simp add: st3_def L_def tot_def SIZE_def sb_def)
  qed
  have fr3: "load64 (mem st3) a = load64 m a"
    if "aligned8 a" "a \<notin> set ?C" "pf \<longrightarrow> a \<noteq> P \<and> a \<noteq> b - 8" "nf \<longrightarrow> a \<noteq> N \<and> a \<noteq> N + sn - 8"
      "a \<noteq> L" "a \<noteq> ftr" for a
  proof -
    have "load64 (mem st3) a = load64 (mem st2) a"
      using ss(3)[OF that(1,5,6)] by (simp add: st3_def)
    then show ?thesis using fr2[OF that(1,2,3,4)] by simp
  qed
  have pr: "PREVRAW (mem st) b = P" by (simp add: P_def m_def)
  have s0: "SIZE (mem st) b = sb" by (simp add: sb_def m_def)
  have s2: "SIZE (mem st2) b = sb" using b2 by (simp add: SIZE_def sb_def)
  have ia2: "ISALLOC (mem st2) b \<noteq> 0" using b2 ia by (simp add: ISALLOC_def)
  have pu: "(PREVUNCOAL (mem st) b = 0) = pf" by (simp add: pf_def m_def)
  have nx1: "NEXTRAW (mem st1) b = N" using b1 by (simp add: NEXTRAW_def SIZE_def N_def)
  have "NEXTUNCOAL (mem st1) b = load64 (mem st1) N AND 3" unfolding NEXTUNCOAL_def nx1 ..
  also have "\<dots> = load64 m N AND 3" by (simp only: N1)
  also have "\<dots> = NEXTUNCOAL m b" unfolding NEXTUNCOAL_def N_def ..
  finally have nu: "(NEXTUNCOAL (mem st1) b = 0) = nf" by (simp add: nf_def)
  have tst: "(tot \<noteq> sb) = (pf \<or> nf)"
  proof -
    define x where "x = (if pf then sp else 0)"
    define y where "y = (if nf then sn else 0)"
    have u: "unat x + unat sb + unat y < 2 ^ 64"
      using nw by (cases pf; cases nf) (simp_all add: x_def y_def)
    then have "unat x + unat y < 2 ^ LENGTH(64)" by simp
    then have xy: "unat (x + y) = unat x + unat y" by (simp only: unat_add_lem[THEN iffD1])
    have "32 \<le> unat x" if pf using that pfa(2) minblock_unat by (simp add: x_def)
    moreover have "32 \<le> unat y" if nf using that nfa(2) minblock_unat by (simp add: y_def)
    ultimately have a: "pf \<or> nf \<Longrightarrow> x + y \<noteq> 0" using xy by (metis add_is_0 not_numeral_le_zero unat_eq_0)
    have b: "\<not> (pf \<or> nf) \<Longrightarrow> x + y = 0" by (simp add: x_def y_def)
    have "tot = sb + (x + y)" by (simp add: tot_def x_def y_def)
    then show ?thesis using a b by (cases "pf \<or> nf") simp_all
  qed
  have co: "coalesce st b = (st3, L)"
  proof (cases pf)
    case True
    note p = True
    have a: "free_list_remove st P = st1" using p by (simp add: st1_def)
    show ?thesis
    proof (cases nf)
      case True
      have c: "free_list_remove st1 N = st2" using True by (simp add: st2_def)
      have t: "sb + sp + sn = tot" using p True by (simp add: tot_def)
      have "sb + sp + sn \<noteq> sb" using tst p unfolding t by simp
      then show ?thesis using p True
        by (simp add: coalesce_def Let_def pu pr s0 a sP1 nu nx1 c sN2 s2 ia2 t st3_def L_def)
    next
      case False
      have c: "st2 = st1" using False by (simp add: st2_def)
      have t: "sb + sp = tot" using p False by (simp add: tot_def)
      have "sb + sp \<noteq> sb" using tst p unfolding t by simp
      then show ?thesis using p False ia2 s2
        by (simp add: coalesce_def Let_def pu pr s0 a sP1 nu nx1 c t st3_def L_def)
    qed
  next
    case False
    note p = False
    have a: "st1 = st" using p by (simp add: st1_def)
    show ?thesis
    proof (cases nf)
      case True
      have c: "free_list_remove st N = st2" using True by (simp add: st2_def a)
      have t: "sb + sn = tot" using p True by (simp add: tot_def)
      have "sb + sn \<noteq> sb" using tst True unfolding t by simp
      then show ?thesis using p True nu nx1 sN2
        by (simp add: coalesce_def Let_def pu pr s0 a c s2 ia2 t st3_def L_def)
    next
      case False
      have c: "st2 = st" using False by (simp add: st2_def a)
      show ?thesis using p False nu
        by (simp add: coalesce_def Let_def pu s0 a c st3_def L_def)
    qed
  qed
  define st4 where "st4 = free_list_insert st3 L True"
  have fr: "free st ptr = st4" using nz ub co by (simp add: free_def st4_def)
  note cs3 = cells_same_table[OF fl3]
  have sl3: "list_slot st3 0 = list_slot st 0" using slot_same_table[OF fl3] by simp
  have al3: "aligned8 (free_lists st3)" using al(1) fl3 by simp
  have c3: "links_closed st3 F (mem st3)" using cl3 by (simp only: cs3)
  have hC: "list_slot st 0 \<in> set ?C" using slot0_in_cells node_cells_link by blast
  have L8: "L + 8 \<in> set ?C \<and> L + 16 \<in> set ?C" if pf
    using that pfa(1) node_in_cells[of P F st] node_cells_link[of _ st F]
    by (auto simp: L_def)
  have L8n: "t \<noteq> L + 8 \<and> t \<noteq> L + 16" if "t \<in> set T" "\<not> pf \<longrightarrow> t \<noteq> b + 8 \<and> t \<noteq> b + 16" for t
  proof (cases pf)
    case True
    then show ?thesis using L8[OF True] tin[OF that(1)] by auto
  next
    case False
    then show ?thesis using that(2) by (simp add: L_def)
  qed
  have hs: "list_slot st 0 \<noteq> L + 8" "list_slot st 0 \<noteq> L + 16"
  proof -
    have "list_slot st 0 \<noteq> L + 8 \<and> list_slot st 0 \<noteq> L + 16"
    proof (cases pf)
      case True
      then show ?thesis
        using site_disjoint(2)[OF dT[unfolded C_def] pfa(1)[OF True]] by (simp add: L_def)
    next
      case False
      then show ?thesis using tin[OF mT(3)] tin[OF mT(4)] hC by (auto simp: L_def)
    qed
    then show "list_slot st 0 \<noteq> L + 8" "list_slot st 0 \<noteq> L + 16" by simp_all
  qed
  have d3: "L \<notin> set (link_cells st3 F)" "L + SIZE (mem st3) L - 8 \<notin> set (link_cells st3 F)"
    "L + SIZE (mem st3) L - 8 \<noteq> L" "list_slot st3 0 \<noteq> L + 8" "list_slot st3 0 \<noteq> L + 16"
    unfolding sz3 fe cs3 sl3 using tin[OF LT(1)] tin[OF LT(2)] fL hs by simp_all
  note ins = insert_spec[OF al3 al(2) c3 aL d3, folded st4_def, unfolded sz3 fe cs3 sl3]
  have sL: "merged_start (mem st) b = L" by (simp add: merged_start_def pu pr L_def)
  have sT: "merged_size (mem st) b = tot"
    by (simp add: merged_size_def tot_def sp_def sb_def sn_def N_def PREVFTR_def WSIZE_def
        pf_def nf_def m_def)
  have h4: "load64 (mem st4) L = (load64 (mem st3) L AND NOT 1) AND NOT 2" by (rule ins(2))
  have sz4: "SIZE (mem st4) L = tot"
    unfolding SIZE_def h4 size_after_markfree using sz3 by (simp only: SIZE_def)
  have keep: "load64 (mem st4) a = load64 m a"
    if "aligned8 a" "a \<notin> set ?C" "pf \<longrightarrow> a \<noteq> P \<and> a \<noteq> b - 8" "nf \<longrightarrow> a \<noteq> N \<and> a \<noteq> N + sn - 8"
      "a \<noteq> L" "a \<noteq> ftr" "a \<noteq> L + 8" "a \<noteq> L + 16" for a
    using ins(3)[OF that(1,2,5,6,7,8)] fr3[OF that(1,2,3,4,5,6)] by simp
  define pv where "pv = (if pf then P - 8 else b - 8)"
  have pvT: "pv \<in> set T" using mT mTp by (simp add: pv_def)
  have apv: "aligned8 pv"
    unfolding pv_def using aP ab by (auto intro!: aligned8_diff aligned8_consts)
  have pve: "L - 8 = pv" by (simp add: L_def pv_def)
  have pvk: "load64 (mem st4) pv = load64 m pv"
  proof (rule keep[OF apv tin[OF pvT]])
    show "pf \<longrightarrow> pv \<noteq> P \<and> pv \<noteq> b - 8" using Ip by (simp add: pv_def)
    show "nf \<longrightarrow> pv \<noteq> N \<and> pv \<noteq> N + sn - 8" using Ip Ipn In I0 by (auto simp: pv_def)
    show "pv \<noteq> L" using Ip I0 by (auto simp: pv_def L_def)
    show "pv \<noteq> ftr" using Ip Ipn In I0 by (auto simp: pv_def ftr_def)
    have "\<not> pf \<longrightarrow> pv \<noteq> b + 8 \<and> pv \<noteq> b + 16" using I0 by (simp add: pv_def)
    then show "pv \<noteq> L + 8" "pv \<noteq> L + 16" using L8n[OF pvT] by simp_all
  qed
  have pvv: "load64 m pv AND 3 \<noteq> 0"
  proof (cases pf)
    case True
    then show ?thesis using pfa(4)[OF True] by (simp add: pv_def PREVUNCOAL_def PREVFTR_def WSIZE_def)
  next
    case False
    then show ?thesis by (simp add: pv_def pf_def PREVUNCOAL_def PREVFTR_def WSIZE_def)
  qed
  have nxT: "nx \<in> set T" by (rule LT)
  have anx: "aligned8 nx"
    unfolding nx_def using aN asz by (auto intro!: aligned8_add)
  have nxk: "load64 (mem st4) nx = load64 m nx"
  proof (rule keep[OF anx tin[OF nxT]])
    show "pf \<longrightarrow> nx \<noteq> P \<and> nx \<noteq> b - 8" using Ip Ipn I0 by (auto simp: nx_def)
    show "nf \<longrightarrow> nx \<noteq> N \<and> nx \<noteq> N + sn - 8" using In by (simp add: nx_def)
    show "nx \<noteq> L" using Ip Ipn In I0 by (auto simp: nx_def L_def)
    show "nx \<noteq> ftr" using In I0 by (auto simp: nx_def ftr_def)
    have "\<not> pf \<longrightarrow> nx \<noteq> b + 8 \<and> nx \<noteq> b + 16" using In I0 by (auto simp: nx_def)
    then show "nx \<noteq> L + 8" "nx \<noteq> L + 16" using L8n[OF nxT] by simp_all
  qed
  have nxv: "load64 m nx AND 3 \<noteq> 0"
  proof (cases nf)
    case True
    then show ?thesis using nfa(3)[OF True] by (simp add: nx_def NEXTUNCOAL_def NEXTRAW_def sn_def)
  next
    case False
    then show ?thesis by (simp add: nx_def nf_def NEXTUNCOAL_def N_def)
  qed
  show "load64 (mem (free st ptr)) (list_slot st 0) = merged_start (mem st) b"
    unfolding fr sL by (rule ins(1))
  show "coalescable (mem (free st ptr)) (merged_start (mem st) b)"
    unfolding fr sL coalescable_def h4 by (rule flags_after_markfree)
  show "SIZE (mem (free st ptr)) (merged_start (mem st) b) = merged_size (mem st) b"
    unfolding fr sL sT by (rule sz4)
  show "PREVUNCOAL (mem (free st ptr)) (merged_start (mem st) b) \<noteq> 0"
    unfolding fr sL PREVUNCOAL_def PREVFTR_def WSIZE_def pve pvk by (rule pvv)
  show "NEXTUNCOAL (mem (free st ptr)) (merged_start (mem st) b) \<noteq> 0"
    unfolding fr sL NEXTUNCOAL_def NEXTRAW_def sz4 ne nxk by (rule nxv)
qed

text \<open>
  C5 as amended, for \<^verbatim>\<open>free\<close>: when the heap is well formed around the block
  released (\<open>free_site_ok\<close>, which includes that a coalescable neighbour has no
  coalescable neighbour of its own on its other side), \<^verbatim>\<open>free\<close> merges the block
  with each physically adjacent block that is free and coalescable. When it returns, the
  merged block is the head of the unsorted list, it is free and coalescable, its size is the
  sum of the sizes merged, and neither the block before it nor the block after it is
  coalescable: the merged block is in no adjacent free pair. For \<^verbatim>\<open>malloc\<close> and
  \<^verbatim>\<open>realloc\<close> the property fails, as above: the remainder of a split goes on the
  unsorted list as it is and is coalesced only when a later search sweeps that list.
\<close>

theorem free_merges_neighbours:
  assumes "ptr \<noteq> 0" and "free_site_ok st F (USERTOBLOCK ptr)"
  shows "load64 (mem (free st ptr)) (list_slot st 0) = merged_start (mem st) (USERTOBLOCK ptr)
     \<and> coalescable (mem (free st ptr)) (merged_start (mem st) (USERTOBLOCK ptr))
     \<and> SIZE (mem (free st ptr)) (merged_start (mem st) (USERTOBLOCK ptr))
         = merged_size (mem st) (USERTOBLOCK ptr)
     \<and> PREVUNCOAL (mem (free st ptr)) (merged_start (mem st) (USERTOBLOCK ptr)) \<noteq> 0
     \<and> NEXTUNCOAL (mem (free st ptr)) (merged_start (mem st) (USERTOBLOCK ptr)) \<noteq> 0
     \<and> \<not> adjacent_free_pair (mem (free st ptr)) (merged_start (mem st) (USERTOBLOCK ptr))"
proof -
  note fs = free_spec[OF assms(2) assms(1) refl]
  have "\<not> adjacent_free_pair (mem (free st ptr)) (merged_start (mem st) (USERTOBLOCK ptr))"
    using fs(5) by (simp add: adjacent_free_pair_def coalescable_def NEXTUNCOAL_def)
  then show ?thesis using fs by blast
qed

lemma table_indices: "[0 .. 75 - 1] = 0 # 1 # [2 .. 74]"
  by (simp add: upto_rec1 [of 0] upto_rec1 [of 1])

lemma trio2_site: "free_site_ok trio2 [4792, 4712] 4752"
  unfolding free_site_ok_def links_closed_def node_cells_def link_cells_def LISTCOUNT_def
    table_indices
  by (simp add: trio2_def macro_defs load64_wmem wlookup_def aligned8_def Let_def; auto)

text \<open>
  C5, witness: three blocks of 40 bytes are allocated and the two outer ones are freed;
  they are on the unsorted list, the middle block at 4752 is allocated. Freeing the middle
  block merges the three into one free block of 120 bytes at 4712.
\<close>

theorem free_merges_neighbours_witness:
  "malloc heap2 16 = Some (trio1, 4800) \<and> free (free trio1 4720) 4800 = trio2
   \<and> (4760 :: addr) \<noteq> 0 \<and> free_site_ok trio2 [4792, 4712] (USERTOBLOCK 4760)
   \<and> load64 (mem (free trio2 4760)) (list_slot trio2 0) = 4712
   \<and> coalescable (mem (free trio2 4760)) 4712
   \<and> SIZE (mem (free trio2 4760)) 4712 = 120
   \<and> PREVUNCOAL (mem (free trio2 4760)) 4712 \<noteq> 0
   \<and> NEXTUNCOAL (mem (free trio2 4760)) 4712 \<noteq> 0
   \<and> \<not> adjacent_free_pair (mem (free trio2 4760)) 4712"
proof -
  have u: "USERTOBLOCK 4760 = 4752" by (simp add: USERTOBLOCK_def WSIZE_def)
  have s: "free_site_ok trio2 [4792, 4712] (USERTOBLOCK 4760)" unfolding u by (rule trio2_site)
  have a: "merged_start (mem trio2) 4752 = 4712" "merged_size (mem trio2) 4752 = 120"
    by (simp_all add: merged_start_def merged_size_def trio2_def macro_defs load64_wmem wlookup_def)
  have n: "(4760 :: addr) \<noteq> 0" by simp
  show ?thesis
    using free_merges_neighbours[OF n s, unfolded u a] run_trio1 run_trio2 s n by simp
qed

subsection \<open>C6: allocate(0)\<close>

text \<open>
  C6 states that \<^verbatim>\<open>allocate(0)\<close>, also as the very first call, returns null with the
  out-of-memory indicator set and without heap growth. Counterexample: on the first call
  \<^verbatim>\<open>malloc(0)\<close> returns null, \<^verbatim>\<open>errno\<close> is still 0, and the break has moved by
  648 bytes, because \<^verbatim>\<open>malloc_init\<close> runs before the size is tested.
\<close>

theorem malloc_zero_first_call:
  "malloc (fresh 4096 65536) 0 = Some (heap0, 0) \<and> errno heap0 \<noteq> ENOMEM
   \<and> brk heap0 = brk (fresh 4096 65536) + 648"
  using run_malloc_zero by (simp add: heap0_def fresh_def ENOMEM_def)

text \<open>
  C6 as amended: \<^verbatim>\<open>allocate(0)\<close> always returns null, and the state it leaves is
  the one \<^verbatim>\<open>malloc_init\<close> leaves. Once the allocator is initialised the call changes
  nothing at all: no heap growth, no list change, \<^verbatim>\<open>errno\<close> untouched. On the first
  call the initialisation runs, and when it succeeds \<^verbatim>\<open>errno\<close> is left as it was.
\<close>

theorem malloc_zero:
  "malloc st 0 = Some (fst (malloc_init st), 0)
   \<and> (0 < init st \<longrightarrow> malloc st 0 = Some (st, 0))
   \<and> (snd (malloc_init st) = 0 \<longrightarrow> errno (fst (malloc_init st)) = errno st)"
  using malloc_init_errno[of st]
  by (simp add: malloc_def malloc_init_done split: prod.splits)

text \<open>C6, witness: an initialised heap, and the first call on a fresh process.\<close>

theorem malloc_zero_witness:
  "0 < init heap1 \<and> malloc heap1 0 = Some (heap1, 0)
   \<and> snd (malloc_init (fresh 4096 65536)) = 0 \<and> errno (fst (malloc_init (fresh 4096 65536))) = 0"
proof -
  have i: "0 < init heap1" by (simp add: heap1_def)
  have r: "malloc_init (fresh 4096 65536) = (heap0, 0)"
    by (simp add: fresh_wmem heap0_def run_defs
        cong: let_weak_cong prod.case_cong_weak option.case_cong_weak)
  have "errno (fst (malloc_init (fresh 4096 65536))) = errno (fresh 4096 65536)"
    using malloc_zero[of "fresh 4096 65536"] r by simp
  moreover have "malloc heap1 0 = Some (heap1, 0)" using i malloc_zero[of heap1] by blast
  ultimately show ?thesis using i r by (simp add: fresh_def)
qed

subsection \<open>C10: the index is monotone\<close>

text \<open>
  C10 states that for block sizes \<open>s1 \<le> s2\<close>, each at least the minimum block size,
  \<open>find_list_index s1 \<le> find_list_index s2\<close>. It holds without the alignment of the
  sizes.
\<close>

theorem find_list_index_mono:
  assumes "MINBLOCK \<le> s1" "s1 \<le> s2"
  shows "find_list_index s1 \<le> find_list_index s2"
proof -
  have u: "unat s1 \<le> unat s2" using assms(2) by (simp add: word_le_nat_alt)
  have "32 \<le> unat s1" using assms(1) by (simp add: MINBLOCK_def WSIZE_def word_le_nat_alt)
  then have m: "8 \<le> s1" "8 \<le> s2" using u by (simp_all add: word_le_nat_alt)
  consider (small) "s2 < 512" | (mixed) "s1 < 512" "512 \<le> s2" | (large) "512 \<le> s1" "512 \<le> s2"
    using linorder_not_less by blast
  then show ?thesis
  proof cases
    case small
    then have "s1 < 512" using assms(2) by (rule order_le_less_trans[rotated])
    then show ?thesis using small m u by (simp add: fli_small div_le_mono)
  next
    case mixed
    have "unat s1 < 512" using mixed(1) by (simp add: word_less_nat_alt)
    then have "find_list_index s1 \<le> 62" using mixed(1) m by (simp add: fli_small)
    moreover have "63 \<le> find_list_index s2" using mixed(2) by (simp add: fli_large LISTCOUNT_def)
    ultimately show ?thesis by simp
  next
    case large
    have "unat (drop_bit 10 s1) \<le> unat (drop_bit 10 s2)"
      using u by (simp add: drop_bit_eq_div unat_div div_le_mono)
    then have "floorlog 2 (unat (drop_bit 10 s1)) \<le> floorlog 2 (unat (drop_bit 10 s2))"
      by (rule floorlog_mono)
    then show ?thesis using large by (auto simp: fli_large LISTCOUNT_def min_def)
  qed
qed

text \<open>C10, witness: the sizes 32 and 1024.\<close>

theorem find_list_index_mono_witness:
  "MINBLOCK \<le> 32 \<and> (32 :: 64 word) \<le> 1024 \<and> find_list_index 32 \<le> find_list_index 1024"
proof -
  have a: "MINBLOCK \<le> 32" by (simp add: MINBLOCK_def WSIZE_def)
  have b: "(32 :: 64 word) \<le> 1024" by simp
  show ?thesis using a b find_list_index_mono[OF a b] by blast
qed

subsection \<open>C8: the block size and its overflow test\<close>

lemma and_not7_bounds:
  "unat ((x :: 64 word) AND NOT 7) \<le> unat x \<and> unat x < unat (x AND NOT 7) + 8"
proof -
  have "unat x = unat ((x AND NOT 7) + (x AND 7))" by (simp only: split_low)
  also have "\<dots> \<le> unat (x AND NOT 7) + unat (x AND 7)"
    by (simp add: unat_word_ariths)
  also have "unat (x AND 7) < 8" using and7_lt8[of x] by (simp add: word_less_nat_alt)
  finally have "unat x < unat (x AND NOT 7) + 8" by simp
  moreover have "x AND NOT 7 \<le> x" by (rule word_and_le2)
  ultimately show ?thesis by (simp add: word_le_nat_alt)
qed

lemma align_overflow_check:
  "usz > ALIGN (BLOCKSIZE usz) \<longleftrightarrow> unat (ALIGN (BLOCKSIZE usz)) < unat usz + unat DSIZE"
proof -
  let ?x = "usz + 31"
  have A: "ALIGN (BLOCKSIZE usz) = ?x AND NOT 7"
    by (simp add: ALIGN_def BLOCKSIZE_def ALIGNMENT_def DSIZE_def WSIZE_def add.commute)
  have D: "unat DSIZE = 16" by (simp add: DSIZE_def WSIZE_def)
  have b: "unat (?x AND NOT 7) \<le> unat ?x \<and> unat ?x < unat (?x AND NOT 7) + 8"
    by (rule and_not7_bounds)
  define M :: nat where "M = 2 ^ 64"
  have u: "unat usz < M" using unsigned_less[of usz] by (simp add: M_def)
  have m31: "31 < M" by (simp add: M_def)
  have xm: "unat ?x = (unat usz + 31) mod M" by (simp add: unat_word_ariths M_def)
  show ?thesis
  proof (cases "unat usz + 31 < M")
    case True
    then have "unat ?x = unat usz + 31" using xm by simp
    then show ?thesis unfolding A D using b by (simp add: word_less_nat_alt)
  next
    case False
    then have ge: "M \<le> unat usz + 31" by simp
    have "(unat usz + 31) mod M = (unat usz + 31 - M) mod M" using ge by (rule le_mod_geq)
    also have "\<dots> = unat usz + 31 - M" using u m31 by (intro mod_less) linarith
    finally have "unat ?x = unat usz + 31 - M" using xm by simp
    then have "unat ?x < 31" using u ge by linarith
    moreover have "31 < unat usz" using ge by (simp add: M_def)
    ultimately show ?thesis unfolding A D using b by (simp add: word_less_nat_alt)
  qed
qed

text \<open>
  The overflow test \<^verbatim>\<open>size > ALIGN(BLOCKSIZE(size))\<close> holds exactly when the aligned
  value is smaller than \<open>usz + 2 * W\<close>, the sum taken without wrap-around
  (\<open>align_overflow_check\<close>). When it holds \<^verbatim>\<open>malloc\<close> returns null and leaves the state
  of \<^verbatim>\<open>malloc_init\<close> with \<^verbatim>\<open>errno\<close> set to \<^verbatim>\<open>ENOMEM\<close>.
\<close>

lemma malloc_overflow_fails:
  assumes "usz \<noteq> 0" "unat (ALIGN (BLOCKSIZE usz)) < unat usz + unat DSIZE"
  shows "malloc st usz = Some ((fst (malloc_init st))\<lparr>errno := ENOMEM\<rparr>, 0)"
proof -
  have o: "usz > ALIGN (BLOCKSIZE usz)" using assms(2) by (simp add: align_overflow_check)
  obtain st0 rc where mi: "malloc_init st = (st0, rc)" by fastforce
  show ?thesis
  proof (cases "rc < 0")
    case True
    then have "errno st0 = ENOMEM" using malloc_init_fail_errno[of st] mi by simp
    then have "st0\<lparr>errno := ENOMEM\<rparr> = st0" by simp
    then show ?thesis using True mi by (simp add: malloc_def)
  next
    case False
    then show ?thesis using o assms(1) mi by (simp add: malloc_def)
  qed
qed

text \<open>
  C8 states that for a request of \<open>user_size > 0\<close> bytes the block size is
  \<open>align (user_size + 2 * W)\<close>, with the failure on overflow. The block size the code
  computes is not the aligned value: \<^verbatim>\<open>ALIGN\<close> adds \<open>ALIGNMENT - 1 = 15\<close> and masks with
  \<^verbatim>\<open>~0x7\<close>. For \<^verbatim>\<open>malloc(16)\<close> the sum \<open>16 + 2 * W = 32\<close> is already a multiple of
  \<open>A = 16\<close>, so \<open>align\<close> gives 32; the code computes 40, the block it allocates has size
  40, and 40 is not a multiple of \<open>A\<close>.
\<close>

theorem malloc_block_size_not_aligned:
  "malloc (fresh 4096 65536) 16 = Some (heap1, 4720)
   \<and> SIZE (mem heap1) (USERTOBLOCK 4720) = 40
   \<and> ALIGN (BLOCKSIZE 16) = 40
   \<and> spec_align (unat ALIGNMENT) (unat (16 + 2 * WSIZE)) = 32
   \<and> unat (40 :: 64 word) mod unat ALIGNMENT = 8"
  using run_malloc_first
  by (simp add: heap1_def spec_align_def macro_defs load64_wmem wlookup_def)

subsection \<open>C9: zeroed allocation\<close>

lemma calloc_product:
  assumes "\<not> (sz \<noteq> 0 \<and> nmemb > SIZE_MAX div sz)"
  shows "unat (nmemb * sz) = unat nmemb * unat (sz :: 64 word)"
proof (cases "sz = 0")
  case True
  then show ?thesis by simp
next
  case False
  then have pos: "0 < unat sz" by (simp add: unat_gt_0)
  have "nmemb \<le> SIZE_MAX div sz" using assms False by (simp add: linorder_not_less)
  then have "unat nmemb \<le> unat (SIZE_MAX div sz)" by (simp add: word_le_nat_alt)
  also have "\<dots> = (2 ^ 64 - 1) div unat sz"
    by (simp add: unat_div SIZE_MAX_def unsigned_minus_1_eq_mask mask_eq_exp_minus_1)
  finally have "unat nmemb * unat sz \<le> ((2 ^ 64 - 1) div unat sz) * unat sz"
    by (rule mult_le_mono1)
  also have "\<dots> \<le> 2 ^ 64 - 1" by (rule div_times_less_eq_dividend)
  finally have "unat nmemb * unat sz < 2 ^ LENGTH(64)" by simp
  then show ?thesis by (rule unat_mult_lem[THEN iffD1])
qed

lemma memset_inside: "i < n \<Longrightarrow> memset m p c n (p + i) = c"
  by (simp add: memset_def)

text \<open>
  C9 states that \<^verbatim>\<open>calloc\<close> fails with null and \<^verbatim>\<open>ENOMEM\<close> when
  \<open>sz \<noteq> 0\<close> and \<open>nmemb > SIZE_MAX / sz\<close>; otherwise the product does not wrap, the
  call is \<^verbatim>\<open>malloc\<close> of the product (it returns exactly when that returns, with
  the same pointer), and when the pointer is not null every one of the
  \<open>nmemb * sz\<close> bytes from it on is 0.
\<close>

theorem calloc_zeroed:
  "(sz \<noteq> 0 \<and> nmemb > SIZE_MAX div sz \<longrightarrow> calloc st nmemb sz = Some (st\<lparr>errno := ENOMEM\<rparr>, 0))
   \<and> (\<not> (sz \<noteq> 0 \<and> nmemb > SIZE_MAX div sz) \<longrightarrow>
        unat (nmemb * sz) = unat nmemb * unat sz
        \<and> (calloc st nmemb sz = None \<longleftrightarrow> malloc st (nmemb * sz) = None)
        \<and> (\<forall>st' p. calloc st nmemb sz = Some (st', p) \<longrightarrow>
              (\<exists>st1. malloc st (nmemb * sz) = Some (st1, p))
              \<and> (p \<noteq> 0 \<longrightarrow> (\<forall>i. i < nmemb * sz \<longrightarrow> mem st' (p + i) = 0))))"
proof (intro conjI impI allI)
  assume "sz \<noteq> 0 \<and> SIZE_MAX div sz < nmemb"
  then show "calloc st nmemb sz = Some (st\<lparr>errno := ENOMEM\<rparr>, 0)"
    by (simp add: calloc_def)
next
  assume n: "\<not> (sz \<noteq> 0 \<and> SIZE_MAX div sz < nmemb)"
  then show "unat (nmemb * sz) = unat nmemb * unat sz" by (rule calloc_product)
next
  assume n: "\<not> (sz \<noteq> 0 \<and> SIZE_MAX div sz < nmemb)"
  show "calloc st nmemb sz = None \<longleftrightarrow> malloc st (nmemb * sz) = None"
    using n by (auto simp: calloc_def Let_def split: option.splits prod.splits)
next
  fix st' p
  assume n: "\<not> (sz \<noteq> 0 \<and> SIZE_MAX div sz < nmemb)"
    and c: "calloc st nmemb sz = Some (st', p)"
  show "\<exists>st1. malloc st (nmemb * sz) = Some (st1, p)"
    using n c by (auto simp: calloc_def Let_def split: option.splits prod.splits if_splits)
next
  fix st' p i
  assume n: "\<not> (sz \<noteq> 0 \<and> SIZE_MAX div sz < nmemb)"
    and c: "calloc st nmemb sz = Some (st', p)" and "p \<noteq> 0" "i < nmemb * sz"
  then show "mem st' (p + i) = 0"
    by (auto simp: calloc_def Let_def memset_inside split: option.splits prod.splits if_splits)
qed

text \<open>
  C9, witness: \<^verbatim>\<open>calloc(SIZE_MAX, 2)\<close> overflows, and \<^verbatim>\<open>calloc(2, 8)\<close> on a fresh
  process returns 4720 with its bytes zero.
\<close>

theorem calloc_zeroed_witness:
  "((2 :: 64 word) \<noteq> 0 \<and> SIZE_MAX > SIZE_MAX div 2
      \<and> calloc heap1 SIZE_MAX 2 = Some (heap1\<lparr>errno := ENOMEM\<rparr>, 0))
   \<and> (\<not> ((8 :: 64 word) \<noteq> 0 \<and> (2 :: 64 word) > SIZE_MAX div 8)
      \<and> calloc (fresh 4096 65536) 2 8 = Some (zeroed1, 4720)
      \<and> (4720 :: addr) \<noteq> 0 \<and> (15 :: 64 word) < 2 * 8 \<and> mem zeroed1 (4720 + 15) = 0)"
proof -
  have a: "(2 :: 64 word) \<noteq> 0 \<and> SIZE_MAX > SIZE_MAX div 2" by (simp add: SIZE_MAX_def)
  have b: "\<not> ((8 :: 64 word) \<noteq> 0 \<and> (2 :: 64 word) > SIZE_MAX div 8)" by (simp add: SIZE_MAX_def)
  have c: "calloc heap1 SIZE_MAX 2 = Some (heap1\<lparr>errno := ENOMEM\<rparr>, 0)"
    using a calloc_zeroed[of 2 SIZE_MAX heap1] by blast
  have "\<forall>st' p. calloc (fresh 4096 65536) 2 8 = Some (st', p) \<longrightarrow>
          (\<exists>st1. malloc (fresh 4096 65536) (2 * 8) = Some (st1, p))
          \<and> (p \<noteq> 0 \<longrightarrow> (\<forall>i. i < 2 * 8 \<longrightarrow> mem st' (p + i) = 0))"
    using b calloc_zeroed[of 8 2 "fresh 4096 65536"] by blast
  then have "\<forall>i. i < (2 * 8 :: 64 word) \<longrightarrow> mem zeroed1 (4720 + i) = 0"
    using run_zeroed1 by fastforce
  then have "mem zeroed1 (4720 + 15) = 0" by (rule allE[where x = 15]) simp
  then show ?thesis using a b c run_zeroed1 by simp
qed

subsection \<open>C7: the search returns a block that is large enough\<close>

lemma sweep_found_aux:
  assumes "unsorted_sweep st fb sz = Some y"
  shows "\<forall>st' r. y = (st', Some r) \<longrightarrow> sz \<le> SIZE (mem st') r"
proof (rule unsorted_sweep.raw_induct[where P = "\<lambda>st fb sz y. \<forall>st' r. y = (st', Some r) \<longrightarrow> sz \<le> SIZE (mem st') r", OF _ assms])
  fix sweep :: "state \<Rightarrow> addr \<Rightarrow> 64 word \<Rightarrow> (state \<times> addr option) option"
  fix st fb sz y
  assume IH: "\<And>st fb sz y. sweep st fb sz = Some y \<Longrightarrow>
      \<forall>st' r. y = (st', Some r) \<longrightarrow> sz \<le> SIZE (mem st') r"
  assume "(if fb \<noteq> 0
      then let (st1, fb) = coalesce st fb;
               st2 = if ISALLOC (mem st1) fb = 0 then free_list_remove st1 fb else st1
           in if sz \<le> SIZE (mem st2) fb then Some (st2, Some fb)
              else let st3 = free_list_insert st2 fb False
                   in sweep st3 (load64 (mem st3) (list_slot st3 0)) sz
      else Some (st, None)) = Some y"
  then show "\<forall>st' r. y = (st', Some r) \<longrightarrow> sz \<le> SIZE (mem st') r"
    using IH by (auto simp: Let_def split: if_splits prod.splits)
qed

lemma sweep_found:
  "unsorted_sweep st fb sz = Some (st', Some r) \<Longrightarrow> sz \<le> SIZE (mem st') r"
  using sweep_found_aux by blast

lemma loop_found_aux:
  assumes "find_in_list_loop m cur sz = Some r"
  shows "r \<noteq> 0 \<longrightarrow> sz \<le> SIZE m r"
proof (rule find_in_list_loop.raw_induct[where P = "\<lambda>m cur sz r. r \<noteq> 0 \<longrightarrow> sz \<le> SIZE m r", OF _ assms])
  fix loop :: "memory \<Rightarrow> addr \<Rightarrow> 64 word \<Rightarrow> addr option"
  fix m cur sz r
  assume IH: "\<And>m cur sz r. loop m cur sz = Some r \<Longrightarrow> r \<noteq> 0 \<longrightarrow> sz \<le> SIZE m r"
  assume "(if cur \<noteq> 0
      then if sz \<le> SIZE m cur then Some cur else loop m (get_next m cur) sz
      else Some 0) = Some r"
  then show "r \<noteq> 0 \<longrightarrow> sz \<le> SIZE m r"
    using IH by (auto split: if_splits)
qed

lemma loop_found:
  "find_in_list_loop m cur sz = Some r \<Longrightarrow> r \<noteq> 0 \<Longrightarrow> sz \<le> SIZE m r"
  using loop_found_aux by blast

lemma scan_found:
  "segregated_scan st i sz = Some r \<Longrightarrow> r \<noteq> 0 \<Longrightarrow>
   \<exists>j. i \<le> j \<and> j < LISTCOUNT
     \<and> find_in_list (mem st) (load64 (mem st) (list_slot st j)) sz = Some r
     \<and> (\<forall>k. i \<le> k \<and> k < j \<longrightarrow>
           find_in_list (mem st) (load64 (mem st) (list_slot st k)) sz = Some 0)"
proof (induction st i sz rule: segregated_scan.induct)
  case (1 st i sz)
  from "1.prems" have lt: "i < LISTCOUNT"
    by (subst (asm) segregated_scan.simps) (auto split: if_splits)
  obtain fb where fb: "find_in_list (mem st) (load64 (mem st) (list_slot st i)) sz = Some fb"
    using "1.prems" lt by (subst (asm) segregated_scan.simps) (auto split: option.splits)
  show ?case
  proof (cases "fb = 0")
    case False
    then have "r = fb" using "1.prems" lt fb by (subst (asm) segregated_scan.simps) simp
    then show ?thesis using fb lt by (intro exI[of _ i]) auto
  next
    case True
    then have "segregated_scan st (i + 1) sz = Some r"
      using "1.prems" lt fb by (subst (asm) segregated_scan.simps) simp
    then obtain j where j: "i + 1 \<le> j" "j < LISTCOUNT"
      "find_in_list (mem st) (load64 (mem st) (list_slot st j)) sz = Some r"
      "\<forall>k. i + 1 \<le> k \<and> k < j \<longrightarrow>
           find_in_list (mem st) (load64 (mem st) (list_slot st k)) sz = Some 0"
      using "1.IH"[OF lt fb] True "1.prems"(2) by blast
    have "\<forall>k. i \<le> k \<and> k < j \<longrightarrow>
           find_in_list (mem st) (load64 (mem st) (list_slot st k)) sz = Some 0"
    proof (intro allI impI)
      fix k assume "i \<le> k \<and> k < j"
      then consider "k = i" | "i + 1 \<le> k \<and> k < j" by linarith
      then show "find_in_list (mem st) (load64 (mem st) (list_slot st k)) sz = Some 0"
        using fb True j(4) by cases auto
    qed
    then show ?thesis using j by (intro exI[of _ j]) auto
  qed
qed


lemma fli_below_512:
  assumes "s < 512"
  shows "find_list_index s = int (unat s div 8) - 1"
proof (cases "8 \<le> s")
  case True
  then show ?thesis using assms by (rule fli_small[rotated])
next
  case False
  then have "unat s < 8" by (simp add: word_le_nat_alt)
  then have "unat (drop_bit 3 s) = 0" by (simp add: drop_bit_eq_div unat_div)
  then have "drop_bit 3 s = 0" by (simp add: unat_eq_0)
  moreover have "(ucast (- 1 :: 64 word) :: 32 word) = - 1"
    by (rule bit_word_eqI) (simp add: bit_simps)
  ultimately show ?thesis using assms \<open>unat s < 8\<close> by (simp add: find_list_index_def)
qed

lemma fli_ge_63: "512 \<le> s \<Longrightarrow> 63 \<le> find_list_index s"
  by (simp add: fli_large LISTCOUNT_def)

lemma aligned_unat: "(s :: 64 word) AND 7 = 0 \<Longrightarrow> unat s = 8 * (unat s div 8)"
proof -
  assume "s AND 7 = 0"
  then have "take_bit 3 s = 0" by (simp add: take_bit_eq_mask seven_mask)
  then have "take_bit 3 (unat s) = 0" by (simp flip: unsigned_take_bit_eq)
  then have "unat s mod 8 = 0" by (simp add: take_bit_eq_mod)
  then show ?thesis by presburger
qed

lemma small_bucket_fits:
  assumes "sz AND 7 = 0" "sz \<le> MAXSMALL" "find_list_index sz \<le> find_list_index h"
  shows "sz \<le> h"
proof (cases "512 \<le> h")
  case True
  have "unat sz \<le> 504" using assms(2) by (simp add: MAXSMALL_def word_le_nat_alt)
  moreover have "512 \<le> unat h" using True by (simp add: word_le_nat_alt)
  ultimately show ?thesis by (simp add: word_le_nat_alt)
next
  case False
  then have h: "h < 512" by (simp add: linorder_not_le)
  have "unat sz \<le> 504" using assms(2) by (simp add: MAXSMALL_def word_le_nat_alt)
  then have s: "sz < 512" by (simp add: word_less_nat_alt)
  have "unat sz div 8 \<le> unat h div 8"
    using assms(3) by (simp add: fli_below_512[OF h] fli_below_512[OF s])
  then have "8 * (unat sz div 8) \<le> 8 * (unat h div 8)" by simp
  also have "\<dots> \<le> unat h" by simp
  finally show ?thesis using aligned_unat[OF assms(1)] by (simp add: word_le_nat_alt)
qed

text \<open>
  C7 states that \<^verbatim>\<open>find_block\<close> returns null or a block of size at least the
  requested block size \<open>sz\<close> (a multiple of 8, at least the minimum block size, as
  every size \<^verbatim>\<open>malloc\<close> passes is), and that for \<open>sz \<le> MAXSMALL\<close> the scan of the
  segregated lists returns the head of the first non-empty list from index
  \<open>find_list_index sz\<close> on, without testing its size; that head is large enough under
  the invariant that the head of each list from 1 on has a size that maps to the
  list's index. The invariant is needed in this case only.
\<close>

theorem find_block_big_enough:
  assumes "find_block st sz = Some (st', r)" "r \<noteq> 0"
    and "sz AND 7 = 0" "MINBLOCK \<le> sz"
    and "sz \<le> MAXSMALL \<Longrightarrow> bucket_heads_ok st'"
  shows "sz \<le> SIZE (mem st') r
    \<and> (sz \<le> MAXSMALL
         \<and> unsorted_sweep st (load64 (mem st) (list_slot st 0)) sz = Some (st', None) \<longrightarrow>
        (\<exists>i. find_list_index sz \<le> i \<and> i < LISTCOUNT
           \<and> r = load64 (mem st') (list_slot st' i)
           \<and> (\<forall>j. find_list_index sz \<le> j \<and> j < i \<longrightarrow> load64 (mem st') (list_slot st' j) = 0)))"
proof -
  obtain y where sw: "unsorted_sweep st (load64 (mem st) (list_slot st 0)) sz = Some y"
    using assms(1) by (auto simp: find_block_def split: option.splits)
  obtain st1 res where y: "y = (st1, res)" by fastforce
  show ?thesis
  proof (cases res)
    case (Some fb)
    then have "st' = st1" "r = fb" using assms(1) sw y by (auto simp: find_block_def)
    then show ?thesis using sweep_found[of st _ sz st1 fb] sw y Some by simp
  next
    case None
    then have st: "st' = st1" and sc: "segregated_scan st1 (find_list_index sz) sz = Some r"
      using assms(1) sw y by (auto simp: find_block_def split: option.splits)
    obtain j where j: "find_list_index sz \<le> j" "j < LISTCOUNT"
      "find_in_list (mem st') (load64 (mem st') (list_slot st' j)) sz = Some r"
      "\<forall>k. find_list_index sz \<le> k \<and> k < j \<longrightarrow>
           find_in_list (mem st') (load64 (mem st') (list_slot st' k)) sz = Some 0"
      using scan_found[OF sc assms(2)] st by blast
    show ?thesis
    proof (cases "sz \<le> MAXSMALL")
      case True
      then have r: "r = load64 (mem st') (list_slot st' j)"
        and z: "\<forall>k. find_list_index sz \<le> k \<and> k < j \<longrightarrow> load64 (mem st') (list_slot st' k) = 0"
        using j(3,4) by (simp_all add: find_in_list_def)
      have "32 \<le> unat sz" using assms(4) by (simp add: MINBLOCK_def WSIZE_def word_le_nat_alt)
      moreover have "unat sz \<le> 504" using True by (simp add: MAXSMALL_def word_le_nat_alt)
      ultimately have "1 \<le> find_list_index sz"
        by (subst fli_below_512) (simp_all add: word_less_nat_alt)
      then have "j \<in> set [1 .. LISTCOUNT - 1]" using j(1,2) by simp
      then have "find_list_index (SIZE (mem st') r) = j"
        using assms(5)[OF True] assms(2) r by (auto simp: bucket_heads_ok_def list_all_iff)
      then have "sz \<le> SIZE (mem st') r"
        using small_bucket_fits[OF assms(3) True] j(1) by simp
      then show ?thesis using r z j(1,2) by blast
    next
      case False
      then have "find_in_list_loop (mem st') (load64 (mem st') (list_slot st' j)) sz = Some r"
        using j(3) by (simp add: find_in_list_def)
      then show ?thesis using loop_found assms(2) False by blast
    qed
  qed
qed

lemma list_indices: "[1 .. 75 - 1] = 1 # [2 .. 74]"
  by (simp add: upto_rec1 [of 1])

lemma reuse2_heads: "bucket_heads_ok reuse2"
  unfolding bucket_heads_ok_def LISTCOUNT_def list_indices
  by (simp add: reuse2_def macro_defs load64_wmem wlookup_def find_list_index_def)

text \<open>
  C7, witness: a heap with one free block of 40 bytes at 4712 on list 4 and an empty
  unsorted list; a search for 40 bytes returns that block.
\<close>

theorem find_block_big_enough_witness:
  "find_block reuse2 40 = Some (reuse2, 4712) \<and> (4712 :: addr) \<noteq> 0 \<and> (40 :: 64 word) AND 7 = 0
   \<and> MINBLOCK \<le> 40 \<and> (40 :: 64 word) \<le> MAXSMALL \<and> bucket_heads_ok reuse2
   \<and> unsorted_sweep reuse2 (load64 (mem reuse2) (list_slot reuse2 0)) 40 = Some (reuse2, None)
   \<and> (40 :: 64 word) \<le> SIZE (mem reuse2) 4712"
proof -
  have a: "(4712 :: addr) \<noteq> 0" "(40 :: 64 word) AND 7 = 0" "MINBLOCK \<le> 40" "(40 :: 64 word) \<le> MAXSMALL"
    by (simp_all add: MINBLOCK_def WSIZE_def MAXSMALL_def)
  have s: "unsorted_sweep reuse2 (load64 (mem reuse2) (list_slot reuse2 0)) 40 = Some (reuse2, None)"
    by (simp add: reuse2_def unsorted_sweep.simps macro_defs load64_wmem wlookup_def)
  have "(40 :: 64 word) \<le> SIZE (mem reuse2) 4712"
    using find_block_big_enough[OF run_reuse3 a(1) a(2) a(3) reuse2_heads] by blast
  then show ?thesis using run_reuse3 a s reuse2_heads by simp
qed


end
